theory Spec2Isabelle
  imports Complex_Main
begin

section \<open>The event-stream server (\<open>registerRoutes\<close>, route \<open>GET /api/events\<close>)\<close>

subsection \<open>\<open>JSON.stringify\<close> on the object literals of the route handler\<close>

text \<open>
  The handler serialises three object literals: \<open>{ message: '...' }\<close>, \<open>{ count: counter }\<close>
  and \<open>{ number: random }\<close>. Their property values are a string or an integer-valued
  number, so \<open>JSON.stringify\<close> is modelled on flat objects with such values. An integer
  is printed in decimal with a leading minus sign when negative (as JavaScript prints an
  integer below \<open>10^21\<close>); a string is quoted, with the quote, the backslash and the
  control characters escaped.
\<close>

datatype jsval = JSString string | JSNumber int

fun show_nat :: "nat \<Rightarrow> string" where
  "show_nat n = (if n < 10 then [''0123456789'' ! n]
                 else show_nat (n div 10) @ [''0123456789'' ! (n mod 10)])"

declare show_nat.simps [simp del]

definition show_int :: "int \<Rightarrow> string" where
  "show_int i = (if i < 0 then CHR ''-'' # show_nat (nat (- i)) else show_nat (nat i))"

definition hex4 :: "nat \<Rightarrow> string" where
  "hex4 n = [''0123456789abcdef'' ! (n div 4096 mod 16), ''0123456789abcdef'' ! (n div 256 mod 16),
             ''0123456789abcdef'' ! (n div 16 mod 16), ''0123456789abcdef'' ! (n mod 16)]"

definition quote_char :: "char \<Rightarrow> string" where
  "quote_char c =
     (if c = CHR ''\"'' then [CHR 0x5C, CHR ''\"'']
      else if c = CHR 0x5C then [CHR 0x5C, CHR 0x5C]
      else if c = CHR 0x08 then [CHR 0x5C, CHR ''b'']
      else if c = CHR 0x09 then [CHR 0x5C, CHR ''t'']
      else if c = CHR 0x0A then [CHR 0x5C, CHR ''n'']
      else if c = CHR 0x0C then [CHR 0x5C, CHR ''f'']
      else if c = CHR 0x0D then [CHR 0x5C, CHR ''r'']
      else if (of_char c :: nat) < 32 then [CHR 0x5C, CHR ''u''] @ hex4 (of_char c)
      else [c])"

definition quote :: "string \<Rightarrow> string" where
  "quote s = [CHR ''\"''] @ concat (map quote_char s) @ [CHR ''\"'']"

fun stringify_val :: "jsval \<Rightarrow> string" where
  "stringify_val (JSString s) = quote s"
| "stringify_val (JSNumber i) = show_int i"

fun stringify_props :: "(string \<times> jsval) list \<Rightarrow> string" where
  "stringify_props [] = []"
| "stringify_props [(k, v)] = quote k @ '':'' @ stringify_val v"
| "stringify_props ((k, v) # kvs) = quote k @ '':'' @ stringify_val v @ '','' @ stringify_props kvs"

definition JSON_stringify :: "(string \<times> jsval) list \<Rightarrow> string" where
  "JSON_stringify props = ''{'' @ stringify_props props @ ''}''"

subsection \<open>Connections, timers and the effect trace\<close>

text \<open>
  One server process hosts any number of requests to the route. The model keeps, for each
  request, the local variables of its handler invocation (the closure shared by the two
  interval callbacks and the close listener), the runtime's table of active interval
  timers, and the trace of the effects performed so far, in order. A timer callback is
  named by the request whose closure it captured. The variable \<open>counter\<close> holds an
  integer; \<open>counter++\<close> is exact on a JavaScript number below \<open>2^53\<close>, a count that one
  increment a second does not reach, and is modelled on the unbounded integers.
\<close>

type_synonym conn_id = nat
type_synonym timer_id = nat

datatype callback = counterCallback conn_id | randomCallback conn_id

datatype effect =
    SetHeader conn_id string string
  | Write conn_id string
  | SetInterval timer_id callback nat
  | ClearInterval timer_id
  | OnClose conn_id

record connection =
  counter :: int
  counterInterval :: "timer_id option"
  randomInterval :: "timer_id option"
  close_listener :: bool
  close_emitted :: bool

record server =
  conns :: "conn_id \<rightharpoonup> connection"
  timers :: "timer_id \<rightharpoonup> callback \<times> nat"
  next_conn :: conn_id
  next_timer :: timer_id
  trace :: "effect list"

definition init_server :: server where
  "init_server = \<lparr>conns = Map.empty, timers = Map.empty, next_conn = 0, next_timer = 0, trace = []\<rparr>"

text \<open>The primitives the handler calls: \<open>res.setHeader\<close>, \<open>res.write\<close>, \<open>setInterval\<close>,
  \<open>clearInterval\<close> and \<open>req.on('close', ...)\<close>.\<close>

definition res_setHeader :: "conn_id \<Rightarrow> string \<Rightarrow> string \<Rightarrow> server \<Rightarrow> server" where
  "res_setHeader cid k v s = s\<lparr>trace := trace s @ [SetHeader cid k v]\<rparr>"

definition res_write :: "conn_id \<Rightarrow> string \<Rightarrow> server \<Rightarrow> server" where
  "res_write cid chunk s = s\<lparr>trace := trace s @ [Write cid chunk]\<rparr>"

definition setInterval :: "callback \<Rightarrow> nat \<Rightarrow> server \<Rightarrow> timer_id \<times> server" where
  "setInterval cb ms s =
     (next_timer s,
      s\<lparr>timers := (timers s)(next_timer s \<mapsto> (cb, ms)),
        next_timer := Suc (next_timer s),
        trace := trace s @ [SetInterval (next_timer s) cb ms]\<rparr>)"

definition clearInterval :: "timer_id option \<Rightarrow> server \<Rightarrow> server" where
  "clearInterval t s =
     (case t of
        None \<Rightarrow> s
      | Some tid \<Rightarrow> s\<lparr>timers := (timers s)(tid := None), trace := trace s @ [ClearInterval tid]\<rparr>)"

definition update_conn :: "conn_id \<Rightarrow> (connection \<Rightarrow> connection) \<Rightarrow> server \<Rightarrow> server" where
  "update_conn cid f s = s\<lparr>conns := (conns s)(cid := map_option f (conns s cid))\<rparr>"

definition req_on_close :: "conn_id \<Rightarrow> server \<Rightarrow> server" where
  "req_on_close cid s =
     (update_conn cid (\<lambda>c. c\<lparr>close_listener := True\<rparr>) s)\<lparr>trace := trace s @ [OnClose cid]\<rparr>"

subsection \<open>The route handler and its three callbacks\<close>

text \<open>The body of \<open>app.get('/api/events', (req, res) => ...)\<close>, statement by statement.\<close>

definition events_handler :: "conn_id \<Rightarrow> server \<Rightarrow> server" where
  "events_handler cid s0 =
     (let s1 = res_setHeader cid ''Content-Type'' ''text/event-stream'' s0;
          s2 = res_setHeader cid ''Cache-Control'' ''no-cache'' s1;
          s3 = res_setHeader cid ''Connection'' ''keep-alive'' s2;
          s4 = res_write cid ''event: connected\<newline>'' s3;
          s5 = res_write cid (''data: '' @
                 JSON_stringify [(''message'', JSString ''Connected to event stream'')] @
                 ''\<newline>\<newline>'') s4;
          s6 = s5\<lparr>conns := (conns s5)(cid \<mapsto>
                 \<lparr>counter = 0, counterInterval = None, randomInterval = None,
                  close_listener = False, close_emitted = False\<rparr>)\<rparr>;
          (t1, s7) = setInterval (counterCallback cid) 1000 s6;
          s8 = update_conn cid (\<lambda>c. c\<lparr>counterInterval := Some t1\<rparr>) s7;
          (t2, s9) = setInterval (randomCallback cid) 2000 s8;
          s10 = update_conn cid (\<lambda>c. c\<lparr>randomInterval := Some t2\<rparr>) s9
      in req_on_close cid s10)"

text \<open>The counter interval's callback: \<open>counter++\<close>, then the two writes.\<close>

definition counter_of :: "server \<Rightarrow> conn_id \<Rightarrow> int" where
  "counter_of s cid = (case conns s cid of None \<Rightarrow> 0 | Some c \<Rightarrow> counter c)"

definition counter_tick :: "conn_id \<Rightarrow> server \<Rightarrow> server" where
  "counter_tick cid s0 =
     (let s1 = update_conn cid (\<lambda>c. c\<lparr>counter := counter c + 1\<rparr>) s0;
          s2 = res_write cid ''event: counter\<newline>'' s1
      in res_write cid (''data: '' @
           JSON_stringify [(''count'', JSNumber (counter_of s1 cid))] @ ''\<newline>\<newline>'') s2)"

subsection \<open>\<open>Math.floor(Math.random() * 100)\<close> in binary64 arithmetic\<close>

text \<open>
  JavaScript numbers are IEEE 754 binary64 values. Every finite non-negative one is a
  multiple \<open>k * 2^-1074\<close> of the smallest subnormal whose significand fits in 53 bits, and
  is represented here by the natural number \<open>k\<close>. \<open>Math.random()\<close> returns such a value
  that is below 1, that is, with \<open>k < 2^1074\<close>. The product with 100 is the exact product
  rounded to the nearest binary64 value, ties to even (overflow to infinity, far above
  any product with 100 of a value below 1, is left out); \<open>Math.floor\<close> then drops the
  fraction.
\<close>

fun bit_length :: "nat \<Rightarrow> nat" where
  "bit_length n = (if n = 0 then 0 else Suc (bit_length (n div 2)))"

declare bit_length.simps [simp del]

definition binary64 :: "nat \<Rightarrow> bool" where
  "binary64 k \<longleftrightarrow> k < 2 ^ 2098 \<and> k mod 2 ^ (bit_length k - 53) = 0"

definition unit_sample :: "nat \<Rightarrow> bool" where
  "unit_sample u \<longleftrightarrow> binary64 u \<and> u < 2 ^ 1074"

definition round_binary64 :: "nat \<Rightarrow> nat" where
  "round_binary64 n =
     (if bit_length n \<le> 53 then n
      else let sh = bit_length n - 53;
               q = n div 2 ^ sh;
               r = n mod 2 ^ sh;
               half = 2 ^ (sh - 1)
           in (if r < half \<or> (r = half \<and> even q) then q else q + 1) * 2 ^ sh)"

definition times_100 :: "nat \<Rightarrow> nat" where
  "times_100 u = round_binary64 (100 * u)"

definition Math_floor :: "nat \<Rightarrow> int" where
  "Math_floor k = int (k div 2 ^ 1074)"

text \<open>The random interval's callback; \<open>u\<close> is what \<open>Math.random()\<close> returns in this call.\<close>

definition random_tick :: "conn_id \<Rightarrow> nat \<Rightarrow> server \<Rightarrow> server" where
  "random_tick cid u s0 =
     (let random = Math_floor (times_100 u);
          s1 = res_write cid ''event: random\<newline>'' s0
      in res_write cid (''data: '' @
           JSON_stringify [(''number'', JSNumber random)] @ ''\<newline>\<newline>'') s1)"

text \<open>The close listener: both intervals are cleared.\<close>

definition close_handler :: "conn_id \<Rightarrow> server \<Rightarrow> server" where
  "close_handler cid s0 =
     (case conns s0 cid of
        None \<Rightarrow> s0
      | Some c \<Rightarrow>
          let s1 = clearInterval (counterInterval c) s0
          in clearInterval (randomInterval c) s1)"

subsection \<open>The event loop\<close>

text \<open>
  The runtime delivers three kinds of events, one at a time, each callback running to
  completion: a request to the route, the expiry of an interval timer (with the value
  the callback's call of \<open>Math.random()\<close> would return), and the close of a request's
  connection. A timer that is not in the table (never set, or cleared) does not fire;
  \<open>'close'\<close> is emitted at most once for a request, and only its registered listener runs.
\<close>

datatype event = Request | TimerFire timer_id nat | PeerClose conn_id

fun run_callback :: "callback \<Rightarrow> nat \<Rightarrow> server \<Rightarrow> server" where
  "run_callback (counterCallback cid) u s = counter_tick cid s"
| "run_callback (randomCallback cid) u s = random_tick cid u s"

fun step :: "server \<Rightarrow> event \<Rightarrow> server" where
  "step s Request = events_handler (next_conn s) (s\<lparr>next_conn := Suc (next_conn s)\<rparr>)"
| "step s (TimerFire tid u) =
     (case timers s tid of
        None \<Rightarrow> s
      | Some (cb, ms) \<Rightarrow> run_callback cb u s)"
| "step s (PeerClose cid) =
     (case conns s cid of
        None \<Rightarrow> s
      | Some c \<Rightarrow>
          if close_emitted c then s
          else let s1 = update_conn cid (\<lambda>c. c\<lparr>close_emitted := True\<rparr>) s
               in if close_listener c then close_handler cid s1 else s1)"

definition run :: "event list \<Rightarrow> server" where
  "run evs = foldl step init_server evs"

subsection \<open>What a connection has been sent\<close>

text \<open>
  The chunks written to a request's response, in order, and their grouping into events:
  each event is written as two chunks, the \<open>event:\<close> line and the \<open>data:\<close> line with
  its blank-line terminator.
\<close>

fun writes :: "conn_id \<Rightarrow> effect list \<Rightarrow> string list" where
  "writes cid [] = []"
| "writes cid (Write c chunk # es) = (if c = cid then chunk # writes cid es else writes cid es)"
| "writes cid (e # es) = writes cid es"

definition body :: "server \<Rightarrow> conn_id \<Rightarrow> string list" where
  "body s cid = writes cid (trace s)"

fun blocks :: "string list \<Rightarrow> (string \<times> string) list" where
  "blocks (e # d # rest) = (e, d) # blocks rest"
| "blocks _ = []"

definition data_of :: "string \<Rightarrow> string list \<Rightarrow> string list" where
  "data_of name chunks = map snd (filter (\<lambda>b. fst b = ''event: '' @ name @ ''\<newline>'') (blocks chunks))"

definition data_line :: "(string \<times> jsval) list \<Rightarrow> string" where
  "data_line props = ''data: '' @ JSON_stringify props @ ''\<newline>\<newline>''"

declare step.simps [simp del]

subsection \<open>Auxiliary notions for the proofs\<close>

text \<open>The request whose closure a callback captured, and the effects that concern a request.\<close>

fun cb_conn :: "callback \<Rightarrow> conn_id" where
  "cb_conn (counterCallback cid) = cid"
| "cb_conn (randomCallback cid) = cid"

fun about :: "conn_id \<Rightarrow> effect \<Rightarrow> bool" where
  "about c (SetHeader c' k v) = (c' = c)"
| "about c (Write c' chunk) = (c' = c)"
| "about c (SetInterval t cb ms) = (cb_conn cb = c)"
| "about c (ClearInterval t) = False"
| "about c (OnClose c') = (c' = c)"

text \<open>An effect that starts one of a request's periodic emitters.\<close>

fun starts :: "conn_id \<Rightarrow> effect \<Rightarrow> bool" where
  "starts c (SetInterval t cb ms) = (cb_conn cb = c)"
| "starts c _ = False"

text \<open>The effects of one run of the route handler, and the chunks of its \<open>connected\<close> event.\<close>

definition handler_effects :: "conn_id \<Rightarrow> timer_id \<Rightarrow> effect list" where
  "handler_effects cid t =
     [SetHeader cid ''Content-Type'' ''text/event-stream'',
      SetHeader cid ''Cache-Control'' ''no-cache'',
      SetHeader cid ''Connection'' ''keep-alive'',
      Write cid ''event: connected\<newline>'',
      Write cid (data_line [(''message'', JSString ''Connected to event stream'')]),
      SetInterval t (counterCallback cid) 1000,
      SetInterval (Suc t) (randomCallback cid) 2000,
      OnClose cid]"

definition connected_frame :: "string list" where
  "connected_frame = [''event: connected\<newline>'',
     data_line [(''message'', JSString ''Connected to event stream'')]]"

text \<open>The events one step of the event loop sends to a given request.\<close>

datatype sent = Sent string "(string \<times> jsval) list"

fun chunks_of :: "sent \<Rightarrow> string list" where
  "chunks_of (Sent name props) = [''event: '' @ name @ ''\<newline>'', data_line props]"

definition sends :: "server \<Rightarrow> event \<Rightarrow> conn_id \<Rightarrow> sent list" where
  "sends s e c =
     (case e of
        Request \<Rightarrow>
          if c = next_conn s
          then [Sent ''connected'' [(''message'', JSString ''Connected to event stream'')]]
          else []
      | TimerFire tid u \<Rightarrow>
          (case timers s tid of
             None \<Rightarrow> []
           | Some (cb, ms) \<Rightarrow>
               (case cb of
                  counterCallback cid \<Rightarrow>
                    if c = cid then [Sent ''counter'' [(''count'', JSNumber (counter_of s cid + 1))]]
                    else []
                | randomCallback cid \<Rightarrow>
                    if c = cid
                    then [Sent ''random'' [(''number'', JSNumber (Math_floor (times_100 u)))]]
                    else []))
      | PeerClose cid \<Rightarrow> [])"

text \<open>An event whose \<open>Math.random()\<close> value, if it has one, is a binary64 value in \<open>[0, 1)\<close>.\<close>

fun sample_ok :: "event \<Rightarrow> bool" where
  "sample_ok (TimerFire tid u) = unit_sample u"
| "sample_ok _ = True"

text \<open>
  The invariant of the event loop: requests are numbered below \<open>next_conn\<close>; every request
  has its close listener and both interval handles; every timer in the table is the
  counter or the random interval of a request whose \<open>'close'\<close> has not been emitted; and
  no effect concerns a request that has not arrived yet.
\<close>

definition wf :: "server \<Rightarrow> bool" where
  "wf s \<longleftrightarrow>
     (\<forall>c. (conns s c = None) = (next_conn s \<le> c)) \<and>
     (\<forall>c conn. conns s c = Some conn \<longrightarrow>
        close_listener conn \<and>
        (\<exists>t1 t2. counterInterval conn = Some t1 \<and> randomInterval conn = Some t2 \<and>
           t1 < next_timer s \<and> t2 < next_timer s)) \<and>
     (\<forall>tid cb ms. timers s tid = Some (cb, ms) \<longrightarrow>
        tid < next_timer s \<and>
        (\<exists>conn. conns s (cb_conn cb) = Some conn \<and> \<not> close_emitted conn \<and>
           (counterInterval conn = Some tid \<or> randomInterval conn = Some tid))) \<and>
     (\<forall>c. next_conn s \<le> c \<longrightarrow> (\<forall>e \<in> set (trace s). \<not> about c e))"

text \<open>
  The part of the state that belongs to one request: its variables, its response, and its
  timers in the runtime's table. An event is foreign to a request when it is the firing
  of a timer that is not the request's, or the close of another request's connection. Two
  states agree on a request when they hold the same for it and allocate the same
  identifiers next.
\<close>

fun owned :: "conn_id \<Rightarrow> (callback \<times> nat) option \<Rightarrow> (callback \<times> nat) option" where
  "owned c None = None"
| "owned c (Some (cb, ms)) = (if cb_conn cb = c then Some (cb, ms) else None)"

fun foreign :: "server \<Rightarrow> conn_id \<Rightarrow> event \<Rightarrow> bool" where
  "foreign s c Request = False"
| "foreign s c (TimerFire tid u) = (owned c (timers s tid) = None)"
| "foreign s c (PeerClose cid) = (cid \<noteq> c)"

definition agree :: "conn_id \<Rightarrow> server \<Rightarrow> server \<Rightarrow> bool" where
  "agree c s s' \<longleftrightarrow>
     conns s c = conns s' c \<and> body s c = body s' c \<and>
     next_conn s = next_conn s' \<and> next_timer s = next_timer s' \<and>
     (\<forall>tid. owned c (timers s tid) = owned c (timers s' tid))"

section \<open>The event-stream client (\<open>ServerSentEventsDemo\<close>)\<close>

subsection \<open>\<open>JSON.parse\<close>\<close>

text \<open>
  A JavaScript string is a sequence of UTF-16 code units, here natural numbers; \<open>utf16\<close>
  embeds an ASCII literal. \<open>JSON.parse\<close> follows the JSON grammar (ECMA-404): the input is
  split into tokens, which a stack machine assembles into a value; \<open>None\<close> stands for the
  \<open>SyntaxError\<close> that \<open>JSON.parse\<close> throws. A number is kept as the exact value of its
  decimal literal (JavaScript rounds it to the nearest binary64 value, which nothing below
  depends on). An object keeps its members in source order; a property read takes the
  last member with the name, as a later duplicate overwrites an earlier one.
\<close>

type_synonym jsstring = "nat list"

definition utf16 :: "string \<Rightarrow> jsstring" where
  "utf16 s = map of_char s"

datatype json =
    JNull
  | JBool bool
  | JNum rat
  | JStr jsstring
  | JArr "json list"
  | JObj "(jsstring \<times> json) list"

datatype token =
    LBrace | RBrace | LBracket | RBracket | Colon | Comma
  | TNull | TTrue | TFalse
  | TNum rat
  | TStr jsstring

definition is_ws :: "nat \<Rightarrow> bool" where
  "is_ws c \<longleftrightarrow> c = 0x20 \<or> c = 0x09 \<or> c = 0x0A \<or> c = 0x0D"

definition is_digit :: "nat \<Rightarrow> bool" where
  "is_digit c \<longleftrightarrow> 0x30 \<le> c \<and> c \<le> 0x39"

definition hex_val :: "nat \<Rightarrow> nat option" where
  "hex_val c =
     (if 0x30 \<le> c \<and> c \<le> 0x39 then Some (c - 0x30)
      else if 0x41 \<le> c \<and> c \<le> 0x46 then Some (c - 0x41 + 10)
      else if 0x61 \<le> c \<and> c \<le> 0x66 then Some (c - 0x61 + 10)
      else None)"

text \<open>The character after a backslash: \<open>" \ / b f n r t\<close>.\<close>

definition unescape :: "nat \<Rightarrow> nat option" where
  "unescape e =
     (if e = 0x22 then Some 0x22
      else if e = 0x5C then Some 0x5C
      else if e = 0x2F then Some 0x2F
      else if e = 0x62 then Some 0x08
      else if e = 0x66 then Some 0x0C
      else if e = 0x6E then Some 0x0A
      else if e = 0x72 then Some 0x0D
      else if e = 0x74 then Some 0x09
      else None)"

text \<open>A string, after its opening quote: the decoded code units and the rest of the input.\<close>

fun lex_string :: "jsstring \<Rightarrow> jsstring \<Rightarrow> (jsstring \<times> jsstring) option" where
  "lex_string acc [] = None"
| "lex_string acc (c # cs) =
     (if c = 0x22 then Some (rev acc, cs)
      else if c = 0x5C then
        (case cs of
           [] \<Rightarrow> None
         | e # r \<Rightarrow>
             if e = 0x75 then
               (case r of
                  h1 # h2 # h3 # h4 # r' \<Rightarrow>
                    (case (hex_val h1, hex_val h2, hex_val h3, hex_val h4) of
                       (Some a, Some b, Some c, Some d) \<Rightarrow>
                         lex_string ((((a * 16 + b) * 16 + c) * 16 + d) # acc) r'
                     | _ \<Rightarrow> None)
                | _ \<Rightarrow> None)
             else
               (case unescape e of
                  None \<Rightarrow> None
                | Some x \<Rightarrow> lex_string (x # acc) r))
      else if c < 0x20 then None
      else lex_string (c # acc) cs)"

definition digits_val :: "jsstring \<Rightarrow> nat" where
  "digits_val ds = foldl (\<lambda>a d. 10 * a + (d - 0x30)) 0 ds"

text \<open>
  A number: an optional minus sign, an integer part without leading zeros, an optional
  fraction and an optional exponent.
\<close>

definition lex_int :: "jsstring \<Rightarrow> (nat \<times> jsstring) option" where
  "lex_int cs =
     (case cs of
        [] \<Rightarrow> None
      | c # r \<Rightarrow>
          if c = 0x30 then Some (0, r)
          else if is_digit c then Some (digits_val (takeWhile is_digit cs), dropWhile is_digit cs)
          else None)"

definition lex_frac :: "jsstring \<Rightarrow> (rat \<times> jsstring) option" where
  "lex_frac cs =
     (case cs of
        c # r \<Rightarrow>
          if c = 0x2E then
            (let fs = takeWhile is_digit r
             in if fs = [] then None
                else Some (of_nat (digits_val fs) / 10 ^ length fs, dropWhile is_digit r))
          else Some (0, cs)
      | [] \<Rightarrow> Some (0, cs))"

definition lex_exp :: "jsstring \<Rightarrow> (rat \<times> jsstring) option" where
  "lex_exp cs =
     (case cs of
        c # r \<Rightarrow>
          if c = 0x65 \<or> c = 0x45 then
            (let neg = (case r of s # _ \<Rightarrow> s = 0x2D | [] \<Rightarrow> False);
                 r1 = (case r of s # r' \<Rightarrow> if s = 0x2D \<or> s = 0x2B then r' else r | [] \<Rightarrow> r);
                 es = takeWhile is_digit r1
             in if es = [] then None
                else Some (if neg then 1 / 10 ^ digits_val es else 10 ^ digits_val es,
                           dropWhile is_digit r1))
          else Some (1, cs)
      | [] \<Rightarrow> Some (1, cs))"

definition lex_number :: "jsstring \<Rightarrow> (rat \<times> jsstring) option" where
  "lex_number cs =
     (let neg = (case cs of c # _ \<Rightarrow> c = 0x2D | [] \<Rightarrow> False);
          cs1 = (if neg then tl cs else cs)
      in case lex_int cs1 of
           None \<Rightarrow> None
         | Some (i, cs2) \<Rightarrow>
             (case lex_frac cs2 of
                None \<Rightarrow> None
              | Some (f, cs3) \<Rightarrow>
                  (case lex_exp cs3 of
                     None \<Rightarrow> None
                   | Some (e, cs4) \<Rightarrow>
                       Some ((if neg then - 1 else 1) * (of_nat i + f) * e, cs4))))"

text \<open>The tokens of an input; \<open>None\<close> when some character starts no token.\<close>

function lex :: "jsstring \<Rightarrow> token list option" where
  "lex [] = Some []"
| "lex (c # cs) =
     (if is_ws c then lex cs
      else if c = 0x7B then map_option (Cons LBrace) (lex cs)
      else if c = 0x7D then map_option (Cons RBrace) (lex cs)
      else if c = 0x5B then map_option (Cons LBracket) (lex cs)
      else if c = 0x5D then map_option (Cons RBracket) (lex cs)
      else if c = 0x3A then map_option (Cons Colon) (lex cs)
      else if c = 0x2C then map_option (Cons Comma) (lex cs)
      else if c = 0x22 then
        (case lex_string [] cs of
           None \<Rightarrow> None
         | Some (s, r) \<Rightarrow> map_option (Cons (TStr s)) (lex r))
      else if c = 0x2D \<or> is_digit c then
        (case lex_number (c # cs) of
           None \<Rightarrow> None
         | Some (v, r) \<Rightarrow> map_option (Cons (TNum v)) (lex r))
      else if c = 0x74 \<and> take 3 cs = utf16 ''rue'' then map_option (Cons TTrue) (lex (drop 3 cs))
      else if c = 0x66 \<and> take 4 cs = utf16 ''alse'' then map_option (Cons TFalse) (lex (drop 4 cs))
      else if c = 0x6E \<and> take 3 cs = utf16 ''ull'' then map_option (Cons TNull) (lex (drop 3 cs))
      else None)"
  by pat_completeness auto
termination
proof -
  have ls: "length r \<le> length cs" if "lex_string acc cs = Some (s, r)" for acc cs s r
    using that
  proof (induction "length cs" arbitrary: acc cs rule: less_induct)
    case less
    show ?case
    proof (cases cs)
      case Nil
      with less.prems show ?thesis by simp
    next
      case (Cons c cs')
      have ih: "lex_string acc' r' = Some (s, r) \<Longrightarrow> length r' \<le> length cs' \<Longrightarrow>
          length r \<le> length cs'" for acc' r'
        using less.hyps [of r' acc'] Cons by simp
      from less.prems Cons show ?thesis
        by (auto split: if_splits list.splits option.splits dest!: ih)
    qed
  qed
  have li: "length r < length cs" if "lex_int cs = Some (i, r)" for cs i r
    using that length_dropWhile_le [of is_digit "tl cs"]
    by (cases cs) (auto simp: lex_int_def split: if_splits)
  have lf: "length r \<le> length cs" if "lex_frac cs = Some (f, r)" for cs f r
    using that length_dropWhile_le [of is_digit "tl cs"]
    by (cases cs) (auto simp: lex_frac_def Let_def split: if_splits)
  have le: "length r \<le> length cs" if "lex_exp cs = Some (e, r)" for cs e r
    using that length_dropWhile_le [of is_digit "tl cs"] length_dropWhile_le [of is_digit "tl (tl cs)"]
    by (cases cs; cases "tl cs") (auto simp: lex_exp_def Let_def split: if_splits)
  have ln: "length r < length cs" if "lex_number cs = Some (v, r)" for cs v r
  proof -
    from that obtain i f e c1 c2 c3 where
      "lex_int (if (case cs of c # _ \<Rightarrow> c = 0x2D | [] \<Rightarrow> False) then tl cs else cs) = Some (i, c1)"
      "lex_frac c1 = Some (f, c2)" "lex_exp c2 = Some (e, r)"
      by (auto simp: lex_number_def Let_def split: option.splits)
    from li [OF this(1)] lf [OF this(2)] le [OF this(3)] show ?thesis
      by (auto split: if_splits)
  qed
  show ?thesis
    by (relation "measure length") (auto dest!: ls ln)
qed

text \<open>
  The stack machine. A frame is an array with its elements so far, or an object with its
  members so far and the name that awaits its value; both lists are in reverse.
\<close>

datatype frame = FArr "json list" | FObj "(jsstring \<times> json) list" "jsstring option"

datatype mode = Value | ValueOrEnd | KeyOrEnd | Key | AfterKey | Next | Done json

fun reduce :: "json \<Rightarrow> frame list \<Rightarrow> (mode \<times> frame list) option" where
  "reduce v [] = Some (Done v, [])"
| "reduce v (FArr vs # st) = Some (Next, FArr (v # vs) # st)"
| "reduce v (FObj kvs (Some k) # st) = Some (Next, FObj ((k, v) # kvs) None # st)"
| "reduce v (FObj kvs None # st) = None"

fun value_step :: "frame list \<Rightarrow> token \<Rightarrow> (mode \<times> frame list) option" where
  "value_step st LBracket = Some (ValueOrEnd, FArr [] # st)"
| "value_step st LBrace = Some (KeyOrEnd, FObj [] None # st)"
| "value_step st TNull = reduce JNull st"
| "value_step st TTrue = reduce (JBool True) st"
| "value_step st TFalse = reduce (JBool False) st"
| "value_step st (TNum x) = reduce (JNum x) st"
| "value_step st (TStr s) = reduce (JStr s) st"
| "value_step st _ = None"

fun key_step :: "frame list \<Rightarrow> token \<Rightarrow> (mode \<times> frame list) option" where
  "key_step (FObj kvs None # st) (TStr k) = Some (AfterKey, FObj kvs (Some k) # st)"
| "key_step _ _ = None"

fun pda_step :: "mode \<Rightarrow> frame list \<Rightarrow> token \<Rightarrow> (mode \<times> frame list) option" where
  "pda_step Value st t = value_step st t"
| "pda_step ValueOrEnd st t =
     (if t = RBracket then (case st of FArr [] # st' \<Rightarrow> reduce (JArr []) st' | _ \<Rightarrow> None)
      else value_step st t)"
| "pda_step KeyOrEnd st t =
     (if t = RBrace then (case st of FObj [] None # st' \<Rightarrow> reduce (JObj []) st' | _ \<Rightarrow> None)
      else key_step st t)"
| "pda_step Key st t = key_step st t"
| "pda_step AfterKey st t = (if t = Colon then Some (Value, st) else None)"
| "pda_step Next st t =
     (case st of
        FArr vs # st' \<Rightarrow>
          if t = Comma then Some (Value, st)
          else if t = RBracket then reduce (JArr (rev vs)) st'
          else None
      | FObj kvs None # st' \<Rightarrow>
          if t = Comma then Some (Key, st)
          else if t = RBrace then reduce (JObj (rev kvs)) st'
          else None
      | _ \<Rightarrow> None)"
| "pda_step (Done v) st t = None"

fun pda :: "mode \<Rightarrow> frame list \<Rightarrow> token list \<Rightarrow> json option" where
  "pda m st [] = (case m of Done v \<Rightarrow> Some v | _ \<Rightarrow> None)"
| "pda m st (t # ts) =
     (case pda_step m st t of
        None \<Rightarrow> None
      | Some (m', st') \<Rightarrow> pda m' st' ts)"

definition JSON_parse :: "jsstring \<Rightarrow> json option" where
  "JSON_parse text = (case lex text of None \<Rightarrow> None | Some ts \<Rightarrow> pda Value [] ts)"

subsection \<open>The component's state and its handlers\<close>

text \<open>
  The exceptions of the component: \<open>JSON.parse\<close> throws a \<open>SyntaxError\<close>, reading a
  property of \<open>null\<close> throws a \<open>TypeError\<close>, and React throws an error when it is to render
  a value that is not a valid child.
\<close>

datatype exn = SyntaxError | TypeError | RenderError

text \<open>
  Reading \<open>data.name\<close> from a parsed value, for a name that no built-in prototype defines
  (as \<open>count\<close>, \<open>number\<close> and \<open>message\<close>): \<open>None\<close> is \<open>undefined\<close>.
\<close>

fun get_prop :: "json \<Rightarrow> string \<Rightarrow> exn + json option" where
  "get_prop JNull name = Inl TypeError"
| "get_prop (JObj kvs) name = Inr (map_of (rev kvs) (utf16 name))"
| "get_prop _ name = Inr None"

text \<open>
  The four \<open>useState\<close> cells of the component, whether it has no open \<open>EventSource\<close>,
  whether it is mounted, what has been printed on the console, and the exceptions that
  nothing caught and that were reported. The counter and the random number hold whatever
  value the payload carried.
\<close>

datatype console_entry = ConsoleLog "json option" | ConsoleError string

record client =
  connectionStatus :: string
  counter_st :: json
  randomNumber :: json
  error :: "string option"
  es_closed :: bool
  mounted :: bool
  console :: "console_entry list"
  uncaught :: "exn list"

definition onopen :: "client \<Rightarrow> client" where
  "onopen c = c\<lparr>error := None, connectionStatus := ''Connected''\<rparr>"

definition onerror :: "client \<Rightarrow> client" where
  "onerror c =
     c\<lparr>error := Some ''Connection error. Retrying...'',
       connectionStatus := ''Error - Retrying'',
       console := console c @ [ConsoleError ''EventSource error:'']\<rparr>"

definition connected_listener :: "jsstring \<Rightarrow> client \<Rightarrow> exn + client" where
  "connected_listener data c =
     (case JSON_parse data of
        None \<Rightarrow> Inl SyntaxError
      | Some d \<Rightarrow>
          (case get_prop d ''message'' of
             Inl e \<Rightarrow> Inl e
           | Inr m \<Rightarrow> Inr (c\<lparr>console := console c @ [ConsoleLog m]\<rparr>)))"

definition counter_listener :: "jsstring \<Rightarrow> client \<Rightarrow> exn + client" where
  "counter_listener data c =
     (case JSON_parse data of
        None \<Rightarrow> Inl SyntaxError
      | Some d \<Rightarrow>
          (case get_prop d ''count'' of
             Inl e \<Rightarrow> Inl e
           | Inr None \<Rightarrow> Inr c
           | Inr (Some v) \<Rightarrow> Inr (c\<lparr>counter_st := v\<rparr>)))"

definition random_listener :: "jsstring \<Rightarrow> client \<Rightarrow> exn + client" where
  "random_listener data c =
     (case JSON_parse data of
        None \<Rightarrow> Inl SyntaxError
      | Some d \<Rightarrow>
          (case get_prop d ''number'' of
             Inl e \<Rightarrow> Inl e
           | Inr None \<Rightarrow> Inr c
           | Inr (Some v) \<Rightarrow> Inr (c\<lparr>randomNumber := v\<rparr>)))"

subsection \<open>The effect and the life of the component\<close>

text \<open>
  The body of the effect creates the \<open>EventSource\<close> and registers the handlers above; the
  function it returns, the cleanup, closes the source. The dependency array of the effect
  is empty. The component is mounted by its first render followed by the effect.
\<close>

definition effect :: "client \<Rightarrow> client" where
  "effect c = c\<lparr>es_closed := False\<rparr>"

definition cleanup :: "client \<Rightarrow> client" where
  "cleanup c = c\<lparr>es_closed := True\<rparr>"

definition effect_deps :: "client \<Rightarrow> json list" where
  "effect_deps c = []"

definition first_render :: client where
  "first_render =
     \<lparr>connectionStatus = ''Disconnected'', counter_st = JNum 0, randomNumber = JNum 0,
      error = None, es_closed = True, mounted = True, console = [], uncaught = []\<rparr>"

definition mount :: client where
  "mount = effect first_render"

text \<open>When a mounted component is unmounted, React runs the cleanup of its effect, once.\<close>

definition unmount :: "client \<Rightarrow> client" where
  "unmount c = (if mounted c then (cleanup c)\<lparr>mounted := False\<rparr> else c)"

text \<open>The part of the state that the component renders.\<close>

definition view :: "client \<Rightarrow> string \<times> json \<times> json \<times> string option" where
  "view c = (connectionStatus c, counter_st c, randomNumber c, error c)"

text \<open>
  The component renders \<open>{counter}\<close> and \<open>{randomNumber}\<close> as children. A number, a string,
  a boolean and \<open>null\<close> are valid children, an array is one when its elements are, and an
  object parsed from JSON is not: React throws on it.
\<close>

fun renderable :: "json \<Rightarrow> bool" where
  "renderable (JObj kvs) = False"
| "renderable (JArr vs) = list_all renderable vs"
| "renderable _ = True"

text \<open>
  After a handler has run, React renders the component again when a state cell has
  changed; what a render does depends on the cells alone, so with the cells as they were
  it does what the last render did. When the render throws, no error boundary catches
  the error: React reports it and unmounts the component. Otherwise the effect is run
  again, after its cleanup, only when its dependencies have changed.
\<close>

definition rerender :: "client \<Rightarrow> client \<Rightarrow> client" where
  "rerender c c' =
     (if view c' = view c then c'
      else if \<not> (renderable (counter_st c') \<and> renderable (randomNumber c'))
        then unmount (c'\<lparr>uncaught := uncaught c' @ [RenderError]\<rparr>)
      else if effect_deps c' = effect_deps c then c'
      else effect (cleanup c'))"

subsection \<open>Event dispatch\<close>

text \<open>
  What the \<open>EventSource\<close> delivers: \<open>open\<close>, \<open>error\<close>, and the named events of the stream
  with their data. A closed source delivers nothing. The listener registered for the
  event's name runs; an exception that leaves it is reported and the state is as the
  listener found it, since a state setter is the last thing a listener calls. The
  handlers \<open>onopen\<close> and \<open>onerror\<close> handle every event of type \<open>open\<close> and \<open>error\<close>, also an
  event of the stream that bears that name.
\<close>

datatype es_event = Open | Error | Named string jsstring

definition report :: "client \<Rightarrow> exn + client \<Rightarrow> client" where
  "report c r = (case r of Inl e \<Rightarrow> c\<lparr>uncaught := uncaught c @ [e]\<rparr> | Inr c' \<Rightarrow> c')"

fun deliver :: "client \<Rightarrow> es_event \<Rightarrow> client" where
  "deliver c Open = onopen c"
| "deliver c Error = onerror c"
| "deliver c (Named name data) =
     (if name = ''open'' then onopen c
      else if name = ''error'' then onerror c
      else if name = ''connected'' then report c (connected_listener data c)
      else if name = ''counter'' then report c (counter_listener data c)
      else if name = ''random'' then report c (random_listener data c)
      else c)"

definition dispatch :: "client \<Rightarrow> es_event \<Rightarrow> client" where
  "dispatch c ev = (if es_closed c then c else rerender c (deliver c ev))"

text \<open>What happens to the component: its source delivers an event, or it is unmounted.\<close>

datatype component_event = Delivered es_event | Unmount

fun component_step :: "client \<Rightarrow> component_event \<Rightarrow> client" where
  "component_step c (Delivered ev) = dispatch c ev"
| "component_step c Unmount = unmount c"

subsection \<open>The framing of an event on the wire\<close>

text \<open>
  A block of the stream body: the line \<open>event: name\<close>, the line \<open>data: json\<close> and a blank
  line. A pair of chunks is framed when it is such a block, split after the first line,
  whose name and data contain no line break and whose data \<open>JSON.parse\<close> reads as an
  object.
\<close>

definition sse_block :: "string \<Rightarrow> string \<Rightarrow> string" where
  "sse_block name json = ''event: '' @ name @ ''\<newline>'' @ ''data: '' @ json @ ''\<newline>'' @ ''\<newline>''"

definition is_object :: "json option \<Rightarrow> bool" where
  "is_object r = (case r of Some (JObj kvs) \<Rightarrow> True | _ \<Rightarrow> False)"

definition framed :: "string \<times> string \<Rightarrow> bool" where
  "framed b =
     (let name = drop 7 (butlast (fst b));
          json = drop 6 (butlast (butlast (snd b)))
      in fst b = ''event: '' @ name @ ''\<newline>'' \<and>
         snd b = ''data: '' @ json @ ''\<newline>\<newline>'' \<and>
         fst b @ snd b = sse_block name json \<and>
         CHR ''\<newline>'' \<notin> set name \<and>
         CHR ''\<newline>'' \<notin> set json \<and>
         is_object (JSON_parse (utf16 json)))"

text \<open>What \<open>JSON.parse\<close> reads from the data line of a block.\<close>

definition payload_of :: "string \<Rightarrow> json option" where
  "payload_of d = JSON_parse (utf16 (drop 6 (butlast (butlast d))))"

text \<open>The state without the record of reported exceptions.\<close>

definition forget_uncaught :: "client \<Rightarrow> client" where
  "forget_uncaught c = c\<lparr>uncaught := []\<rparr>"


section \<open>Properties of the server\<close>

lemmas prim_defs = res_setHeader_def res_write_def setInterval_def clearInterval_def
  update_conn_def req_on_close_def

lemma events_handler_eq:
  "events_handler cid s =
     s\<lparr>conns := (conns s)(cid \<mapsto>
          \<lparr>counter = 0, counterInterval = Some (next_timer s),
           randomInterval = Some (Suc (next_timer s)),
           close_listener = True, close_emitted = False\<rparr>),
       timers := (timers s)(next_timer s \<mapsto> (counterCallback cid, 1000),
                            Suc (next_timer s) \<mapsto> (randomCallback cid, 2000)),
       next_timer := Suc (Suc (next_timer s)),
       trace := trace s @ handler_effects cid (next_timer s)\<rparr>"
  by (simp add: events_handler_def prim_defs handler_effects_def data_line_def Let_def)

lemma counter_tick_eq:
  "counter_tick cid s =
     s\<lparr>conns := (conns s)(cid := map_option (\<lambda>c. c\<lparr>counter := counter c + 1\<rparr>) (conns s cid)),
       trace := trace s @ [Write cid ''event: counter\<newline>'',
                           Write cid (data_line [(''count'', JSNumber (counter_of s cid + (if conns s cid = None then 0 else 1)))])]\<rparr>"
  by (cases "conns s cid") (simp_all add: counter_tick_def prim_defs counter_of_def data_line_def Let_def)

lemma random_tick_eq:
  "random_tick cid u s =
     s\<lparr>trace := trace s @ [Write cid ''event: random\<newline>'',
                           Write cid (data_line [(''number'', JSNumber (Math_floor (times_100 u)))])]\<rparr>"
  by (simp add: random_tick_def prim_defs data_line_def Let_def)

lemma step_PeerClose_eq:
  assumes "conns s cid = Some c" "\<not> close_emitted c" "close_listener c"
    "counterInterval c = Some t1" "randomInterval c = Some t2"
  shows "step s (PeerClose cid) =
     s\<lparr>conns := (conns s)(cid \<mapsto> c\<lparr>close_emitted := True\<rparr>),
       timers := (timers s)(t1 := None, t2 := None),
       trace := trace s @ [ClearInterval t1, ClearInterval t2]\<rparr>"
  using assms by (simp add: step.simps close_handler_def prim_defs Let_def)

lemma writes_append [simp]: "writes cid (xs @ ys) = writes cid xs @ writes cid ys"
  by (induction cid xs rule: writes.induct) simp_all

lemma writes_handler_effects:
  "writes c (handler_effects cid t) =
     (if c = cid then [''event: connected\<newline>'',
                       data_line [(''message'', JSString ''Connected to event stream'')]]
      else [])"
  by (simp add: handler_effects_def)

lemma wf_init: "wf init_server"
  by (simp add: wf_def init_server_def)

lemma step_Request_eq:
  "step s Request =
     s\<lparr>conns := (conns s)(next_conn s \<mapsto>
          \<lparr>counter = 0, counterInterval = Some (next_timer s),
           randomInterval = Some (Suc (next_timer s)),
           close_listener = True, close_emitted = False\<rparr>),
       timers := (timers s)(next_timer s \<mapsto> (counterCallback (next_conn s), 1000),
                            Suc (next_timer s) \<mapsto> (randomCallback (next_conn s), 2000)),
       next_conn := Suc (next_conn s),
       next_timer := Suc (Suc (next_timer s)),
       trace := trace s @ handler_effects (next_conn s) (next_timer s)\<rparr>"
  by (simp add: step.simps events_handler_eq)

lemma step_stale: "timers s tid = None \<Longrightarrow> step s (TimerFire tid u) = s"
  by (simp add: step.simps)

lemma step_counter:
  "timers s tid = Some (counterCallback cid, ms) \<Longrightarrow> step s (TimerFire tid u) = counter_tick cid s"
  by (simp add: step.simps)

lemma step_random:
  "timers s tid = Some (randomCallback cid, ms) \<Longrightarrow> step s (TimerFire tid u) = random_tick cid u s"
  by (simp add: step.simps)

lemma step_PeerClose_none: "conns s cid = None \<Longrightarrow> step s (PeerClose cid) = s"
  by (simp add: step.simps)

lemma step_PeerClose_again:
  "conns s cid = Some c \<Longrightarrow> close_emitted c \<Longrightarrow> step s (PeerClose cid) = s"
  by (simp add: step.simps)

lemma wf_conns: "wf s \<Longrightarrow> (conns s c = None) = (next_conn s \<le> c)"
  by (simp add: wf_def)

lemma wf_listener:
  "wf s \<Longrightarrow> conns s c = Some conn \<Longrightarrow>
     close_listener conn \<and>
     (\<exists>t1 t2. counterInterval conn = Some t1 \<and> randomInterval conn = Some t2 \<and>
        t1 < next_timer s \<and> t2 < next_timer s)"
  unfolding wf_def by blast

lemma wf_timers:
  "wf s \<Longrightarrow> timers s tid = Some (cb, ms) \<Longrightarrow>
     tid < next_timer s \<and>
     (\<exists>conn. conns s (cb_conn cb) = Some conn \<and> \<not> close_emitted conn \<and>
        (counterInterval conn = Some tid \<or> randomInterval conn = Some tid))"
  unfolding wf_def by blast

lemma wf_trace: "wf s \<Longrightarrow> next_conn s \<le> c \<Longrightarrow> e \<in> set (trace s) \<Longrightarrow> \<not> about c e"
  unfolding wf_def by blast

lemma writes_not_about: "\<forall>e \<in> set es. \<not> about c e \<Longrightarrow> writes c es = []"
  by (induction c es rule: writes.induct) simp_all

lemma wf_writes: "wf s \<Longrightarrow> next_conn s \<le> c \<Longrightarrow> writes c (trace s) = []"
  by (rule writes_not_about) (simp add: wf_trace)

lemma about_handler_effects: "e \<in> set (handler_effects cid t) \<Longrightarrow> about c e = (c = cid)"
  by (auto simp: handler_effects_def)

lemma wfI:
  assumes "\<And>c. (conns s c = None) = (next_conn s \<le> c)"
    and "\<And>c conn. conns s c = Some conn \<Longrightarrow>
        close_listener conn \<and>
        (\<exists>t1 t2. counterInterval conn = Some t1 \<and> randomInterval conn = Some t2 \<and>
           t1 < next_timer s \<and> t2 < next_timer s)"
    and "\<And>tid cb ms. timers s tid = Some (cb, ms) \<Longrightarrow>
        tid < next_timer s \<and>
        (\<exists>conn. conns s (cb_conn cb) = Some conn \<and> \<not> close_emitted conn \<and>
           (counterInterval conn = Some tid \<or> randomInterval conn = Some tid))"
    and "\<And>c e. next_conn s \<le> c \<Longrightarrow> e \<in> set (trace s) \<Longrightarrow> \<not> about c e"
  shows "wf s"
  unfolding wf_def using assms by blast

lemma wf_Request:
  assumes "wf s"
  shows "wf (step s Request)"
proof (rule wfI)
  fix c
  show "(conns (step s Request) c = None) = (next_conn (step s Request) \<le> c)"
    using wf_conns [OF assms, of c] by (auto simp: step_Request_eq)
next
  fix c conn
  assume "conns (step s Request) c = Some conn"
  then show "close_listener conn \<and>
      (\<exists>t1 t2. counterInterval conn = Some t1 \<and> randomInterval conn = Some t2 \<and>
         t1 < next_timer (step s Request) \<and> t2 < next_timer (step s Request))"
    using wf_listener [OF assms, of c conn] by (auto simp: step_Request_eq less_Suc_eq split: if_splits)
next
  fix tid cb ms
  assume t: "timers (step s Request) tid = Some (cb, ms)"
  show "tid < next_timer (step s Request) \<and>
     (\<exists>conn. conns (step s Request) (cb_conn cb) = Some conn \<and> \<not> close_emitted conn \<and>
        (counterInterval conn = Some tid \<or> randomInterval conn = Some tid))"
  proof (cases "tid = next_timer s \<or> tid = Suc (next_timer s)")
    case True
    with t show ?thesis by (auto simp: step_Request_eq split: if_splits)
  next
    case False
    with t have old: "timers s tid = Some (cb, ms)" by (simp add: step_Request_eq)
    from wf_timers [OF assms old] obtain conn where
      c: "tid < next_timer s" "conns s (cb_conn cb) = Some conn" "\<not> close_emitted conn"
         "counterInterval conn = Some tid \<or> randomInterval conn = Some tid" by blast
    from c(2) wf_conns [OF assms, of "cb_conn cb"] have "cb_conn cb \<noteq> next_conn s" by auto
    with c show ?thesis by (simp add: step_Request_eq)
  qed
next
  fix c e
  assume "next_conn (step s Request) \<le> c" "e \<in> set (trace (step s Request))"
  then show "\<not> about c e"
    using wf_trace [OF assms, of c e] about_handler_effects [of e "next_conn s" "next_timer s" c]
    by (auto simp: step_Request_eq)
qed

lemma wf_TimerFire:
  assumes "wf s"
  shows "wf (step s (TimerFire tid u))"
proof (cases "timers s tid")
  case None
  with assms show ?thesis by (simp add: step_stale)
next
  case (Some p)
  obtain cb ms where p: "p = (cb, ms)" by (cases p)
  from wf_timers [OF assms Some [unfolded p]] obtain conn where
    c: "conns s (cb_conn cb) = Some conn" by blast
  have nc: "cb_conn cb < next_conn s" using wf_conns [OF assms, of "cb_conn cb"] c by auto
  show ?thesis
  proof (cases cb)
    case (counterCallback cid)
    with c nc have cc: "conns s cid = Some conn" "cid < next_conn s" by simp_all
    have st: "step s (TimerFire tid u) = counter_tick cid s" using Some p counterCallback by (simp add: step_counter)
    show ?thesis unfolding st
    proof (rule wfI)
      fix c'
      show "(conns (counter_tick cid s) c' = None) = (next_conn (counter_tick cid s) \<le> c')"
        using wf_conns [OF assms, of c'] cc by (auto simp: counter_tick_eq)
    next
      fix c' conn'
      assume "conns (counter_tick cid s) c' = Some conn'"
      then show "close_listener conn' \<and>
          (\<exists>t1 t2. counterInterval conn' = Some t1 \<and> randomInterval conn' = Some t2 \<and>
             t1 < next_timer (counter_tick cid s) \<and> t2 < next_timer (counter_tick cid s))"
        using wf_listener [OF assms, of c'] cc by (auto simp: counter_tick_eq split: if_splits)
    next
      fix tid' cb' ms'
      assume "timers (counter_tick cid s) tid' = Some (cb', ms')"
      then have old: "timers s tid' = Some (cb', ms')" by (simp add: counter_tick_eq)
      from wf_timers [OF assms old] cc
      show "tid' < next_timer (counter_tick cid s) \<and>
         (\<exists>conn. conns (counter_tick cid s) (cb_conn cb') = Some conn \<and> \<not> close_emitted conn \<and>
            (counterInterval conn = Some tid' \<or> randomInterval conn = Some tid'))"
        by (auto simp: counter_tick_eq)
    next
      fix c' e
      assume "next_conn (counter_tick cid s) \<le> c'" "e \<in> set (trace (counter_tick cid s))"
      then show "\<not> about c' e"
        using wf_trace [OF assms, of c' e] cc by (auto simp: counter_tick_eq)
    qed
  next
    case (randomCallback cid)
    with nc have cc: "cid < next_conn s" by simp
    have st: "step s (TimerFire tid u) = random_tick cid u s" using Some p randomCallback by (simp add: step_random)
    have "wf (random_tick cid u s)"
      using assms cc unfolding wf_def by (auto simp: random_tick_eq)
    then show ?thesis by (simp only: st)
  qed
qed

lemma wf_PeerClose:
  assumes "wf s"
  shows "wf (step s (PeerClose cid))"
proof (cases "conns s cid")
  case None
  with assms show ?thesis by (simp add: step_PeerClose_none)
next
  case (Some c)
  show ?thesis
  proof (cases "close_emitted c")
    case True
    with Some assms show ?thesis by (simp add: step_PeerClose_again)
  next
    case False
    from wf_listener [OF assms Some] obtain t1 t2 where
      l: "close_listener c" "counterInterval c = Some t1" "randomInterval c = Some t2"
      and lt: "t1 < next_timer s" "t2 < next_timer s" by blast
    note st = step_PeerClose_eq [OF Some False l]
    show ?thesis unfolding st
    proof (rule wfI, goal_cases)
      case (1 c')
      show ?case using wf_conns [OF assms, of c'] Some by auto
    next
      case (2 c' conn')
      then show ?case using wf_listener [OF assms, of c'] l lt by (auto split: if_splits)
    next
      case (3 tid' cb' ms')
      then have old: "timers s tid' = Some (cb', ms')" and ne: "tid' \<noteq> t1" "tid' \<noteq> t2"
        by (auto split: if_splits)
      from wf_timers [OF assms old] obtain conn where
        c: "tid' < next_timer s" "conns s (cb_conn cb') = Some conn" "\<not> close_emitted conn"
           "counterInterval conn = Some tid' \<or> randomInterval conn = Some tid'" by blast
      from c(2,4) ne l Some have "cb_conn cb' \<noteq> cid" by auto
      with c show ?case by simp
    next
      case (4 c' e)
      then show ?case using wf_trace [OF assms, of c' e] by auto
    qed
  qed
qed

lemma wf_step: "wf s \<Longrightarrow> wf (step s e)"
  by (cases e) (simp_all only: wf_Request wf_TimerFire wf_PeerClose)

lemma run_snoc: "run (evs @ [e]) = step (run evs) e"
  by (simp add: run_def)

lemma wf_run: "wf (run evs)"
  by (induction evs rule: rev_induct) (simp_all add: run_snoc wf_step, simp add: run_def wf_init)

lemma blocks_append: "even (length xs) \<Longrightarrow> blocks (xs @ ys) = blocks xs @ blocks ys"
  by (induction xs rule: blocks.induct) simp_all

lemma data_of_append:
  "even (length xs) \<Longrightarrow> data_of name (xs @ ys) = data_of name xs @ data_of name ys"
  by (simp add: data_of_def blocks_append)

lemma data_of_Nil [simp]: "data_of name [] = []"
  by (simp add: data_of_def)

lemma data_of_pair:
  "data_of name [''event: '' @ name' @ ''\<newline>'', d] = (if name' = name then [d] else [])"
  by (auto simp: data_of_def)

lemma body_Request:
  "body (step s Request) c =
     body s c @ (if c = next_conn s
                 then [''event: connected\<newline>'',
                       data_line [(''message'', JSString ''Connected to event stream'')]]
                 else [])"
  by (simp add: body_def step_Request_eq writes_handler_effects)

lemma body_counter_tick:
  "body (counter_tick cid s) c =
     body s c @ (if c = cid
                 then [''event: counter\<newline>'',
                       data_line [(''count'', JSNumber (counter_of s cid + (if conns s cid = None then 0 else 1)))]]
                 else [])"
  by (simp add: body_def counter_tick_eq)

lemma body_random_tick:
  "body (random_tick cid u s) c =
     body s c @ (if c = cid
                 then [''event: random\<newline>'',
                       data_line [(''number'', JSNumber (Math_floor (times_100 u)))]]
                 else [])"
  by (simp add: body_def random_tick_eq)

lemma body_PeerClose: "wf s \<Longrightarrow> body (step s (PeerClose cid)) c = body s c"
proof (cases "conns s cid")
  case None
  then show ?thesis by (simp add: step_PeerClose_none)
next
  case (Some conn)
  assume w: "wf s"
  show ?thesis
  proof (cases "close_emitted conn")
    case True
    with Some show ?thesis by (simp add: step_PeerClose_again)
  next
    case False
    from wf_listener [OF w Some] obtain t1 t2 where
      l: "close_listener conn" "counterInterval conn = Some t1" "randomInterval conn = Some t2"
      by blast
    show ?thesis by (simp add: step_PeerClose_eq [OF Some False l] body_def)
  qed
qed

lemma counter_of_Request:
  "counter_of (step s Request) c = (if c = next_conn s then 0 else counter_of s c)"
  by (simp add: counter_of_def step_Request_eq)

lemma counter_of_counter_tick:
  "counter_of (counter_tick cid s) c =
     (if c = cid \<and> conns s cid \<noteq> None then counter_of s c + 1 else counter_of s c)"
  by (auto simp: counter_of_def counter_tick_eq)

lemma counter_of_random_tick: "counter_of (random_tick cid u s) c = counter_of s c"
  by (simp add: counter_of_def random_tick_eq)

lemma counter_of_PeerClose: "wf s \<Longrightarrow> counter_of (step s (PeerClose cid)) c = counter_of s c"
proof (cases "conns s cid")
  case None
  then show ?thesis by (simp add: step_PeerClose_none)
next
  case (Some conn)
  assume w: "wf s"
  show ?thesis
  proof (cases "close_emitted conn")
    case True
    with Some show ?thesis by (simp add: step_PeerClose_again)
  next
    case False
    from wf_listener [OF w Some] obtain t1 t2 where
      l: "close_listener conn" "counterInterval conn = Some t1" "randomInterval conn = Some t2"
      by blast
    show ?thesis using Some by (simp add: step_PeerClose_eq [OF Some False l] counter_of_def)
  qed
qed

text \<open>Every step appends whole events to a response.\<close>

lemma length_chunks_of [simp]: "length (chunks_of x) = 2"
  by (cases x) simp

lemma body_step:
  assumes "wf s"
  shows "body (step s e) c = body s c @ concat (map chunks_of (sends s e c))"
proof (cases e)
  case Request
  then show ?thesis by (simp add: body_Request sends_def)
next
  case (TimerFire tid u)
  show ?thesis
  proof (cases "timers s tid")
    case None
    with TimerFire show ?thesis by (simp add: sends_def step_stale)
  next
    case (Some p)
    obtain cb ms where p: "p = (cb, ms)" by (cases p)
    from wf_timers [OF assms Some [unfolded p]] have "conns s (cb_conn cb) \<noteq> None" by auto
    with TimerFire Some p show ?thesis
      by (cases cb) (auto simp: sends_def step_counter step_random body_counter_tick body_random_tick)
  qed
next
  case (PeerClose cid)
  then show ?thesis using assms by (simp add: body_PeerClose sends_def)
qed

lemma counter_of_step:
  assumes "wf s"
  shows "counter_of (step s e) c =
     (case e of
        Request \<Rightarrow> if c = next_conn s then 0 else counter_of s c
      | TimerFire tid u \<Rightarrow>
          (case timers s tid of
             Some (counterCallback cid, ms) \<Rightarrow> if c = cid then counter_of s c + 1 else counter_of s c
           | _ \<Rightarrow> counter_of s c)
      | PeerClose cid \<Rightarrow> counter_of s c)"
proof (cases e)
  case Request
  then show ?thesis by (simp add: counter_of_Request)
next
  case (TimerFire tid u)
  show ?thesis
  proof (cases "timers s tid")
    case None
    with TimerFire show ?thesis by (simp add: step_stale)
  next
    case (Some p)
    obtain cb ms where p: "p = (cb, ms)" by (cases p)
    from wf_timers [OF assms Some [unfolded p]] have "conns s (cb_conn cb) \<noteq> None" by auto
    with TimerFire Some p show ?thesis
      by (cases cb) (simp_all add: step_counter step_random counter_of_counter_tick counter_of_random_tick)
  qed
next
  case (PeerClose cid)
  then show ?thesis using assms by (simp add: counter_of_PeerClose)
qed

lemma even_body: "even (length (body (run evs) c))"
proof (induction evs rule: rev_induct)
  case Nil
  show ?case by (simp add: run_def init_server_def body_def)
next
  case (snoc e evs)
  have "even (length (concat (map chunks_of xs)))" for xs
    by (induction xs) simp_all
  with snoc show ?case by (simp add: run_snoc body_step [OF wf_run])
qed

lemma body_fresh: "next_conn (run evs) \<le> c \<Longrightarrow> body (run evs) c = []"
  using wf_writes [OF wf_run] by (simp add: body_def)

lemma counter_fresh: "next_conn (run evs) \<le> c \<Longrightarrow> counter_of (run evs) c = 0"
  using wf_conns [OF wf_run, of evs c] by (simp add: counter_of_def)

lemma counter_nonneg: "0 \<le> counter_of (run evs) c"
proof (induction evs arbitrary: c rule: rev_induct)
  case Nil
  show ?case by (simp add: run_def init_server_def counter_of_def)
next
  case (snoc e evs)
  then show ?case
    by (simp add: run_snoc counter_of_step [OF wf_run] split: event.split option.split callback.split)
qed

lemma counter_data:
  "data_of ''counter'' (body (run evs) c) =
     map (\<lambda>k. data_line [(''count'', JSNumber k)]) [1..counter_of (run evs) c]"
proof (induction evs arbitrary: c rule: rev_induct)
  case Nil
  show ?case by (simp add: run_def init_server_def body_def data_of_def counter_of_def)
next
  case (snoc e evs)
  let ?s = "run evs"
  have up: "[1..k + 1] = [1..k] @ [k + 1]" if "0 \<le> k" for k :: int
    using that upto_rec2 [of 1 "k + 1"] by simp
  show ?case
  proof (cases e)
    case Request
    have f: "body ?s (next_conn ?s) = []" by (simp add: body_fresh)
    have d: "data_of ''counter'' [''event: connected\<newline>'', x] = []" for x
      by (simp add: data_of_def)
    have e: "counter_of ?s (next_conn ?s) = 0" by (simp add: counter_fresh)
    show ?thesis
      using snoc [of c] f d e
      by (simp add: run_snoc Request body_Request counter_of_Request data_of_append even_body)
  next
    case (TimerFire tid u)
    show ?thesis
      using snoc [of c] up [OF counter_nonneg [of evs c]]
      by (auto simp: run_snoc TimerFire body_step [OF wf_run] counter_of_step [OF wf_run]
          sends_def data_of_append even_body data_of_pair [of _ "''counter''", simplified]
          data_of_pair [of _ "''random''", simplified]
          split: option.split callback.split)
  next
    case (PeerClose cid)
    with snoc [of c] show ?thesis
      by (simp add: run_snoc body_PeerClose [OF wf_run] counter_of_PeerClose [OF wf_run])
  qed
qed

subsection \<open>Timers after close\<close>

lemma timers_step_None:
  assumes "t < next_timer s" "timers s t = None"
  shows "timers (step s e) t = None \<and> t < next_timer (step s e)"
proof (cases e)
  case Request
  with assms show ?thesis by (simp add: step_Request_eq)
next
  case (TimerFire tid u)
  show ?thesis
  proof (cases "timers s tid")
    case None
    with assms TimerFire show ?thesis by (simp add: step_stale)
  next
    case (Some p)
    obtain cb ms where "p = (cb, ms)" by (cases p)
    with Some assms TimerFire show ?thesis
      by (cases cb) (simp_all add: step_counter step_random counter_tick_eq random_tick_eq)
  qed
next
  case (PeerClose cid)
  with assms show ?thesis
    by (auto simp: step.simps close_handler_def prim_defs Let_def split: option.split)
qed

lemma timers_run_None:
  assumes "t < next_timer (run evs)" "timers (run evs) t = None"
  shows "timers (run (evs @ evs')) t = None \<and> t < next_timer (run (evs @ evs'))"
proof (induction evs' rule: rev_induct)
  case Nil
  with assms show ?case by simp
next
  case (snoc e evs')
  then show ?case
    using timers_step_None [of t "run (evs @ evs')" e] by (simp add: run_snoc [symmetric])
qed

lemma closed_timers:
  assumes "conns (run evs) c = Some conn" "close_emitted conn"
    "counterInterval conn = Some t \<or> randomInterval conn = Some t"
  shows "timers (run evs) t = None"
  using assms
proof (induction evs arbitrary: conn rule: rev_induct)
  case Nil
  then show ?case by (simp add: run_def init_server_def)
next
  case (snoc e evs)
  let ?s = "run evs"
  note w = wf_run [of evs]
  show ?case
  proof (cases e)
    case Request
    with snoc.prems have ne: "c \<noteq> next_conn ?s"
      by (auto simp: run_snoc step_Request_eq)
    with snoc.prems Request have old: "conns ?s c = Some conn"
      by (simp add: run_snoc step_Request_eq)
    from wf_listener [OF w old] snoc.prems(3) have "t < next_timer ?s" by auto
    with snoc.IH [OF old snoc.prems(2,3)] Request show ?thesis
      by (simp add: run_snoc step_Request_eq)
  next
    case (TimerFire tid u)
    show ?thesis
    proof (cases "timers ?s tid")
      case None
      with snoc TimerFire show ?thesis by (simp add: run_snoc step_stale)
    next
      case (Some p)
      obtain cb ms where p: "p = (cb, ms)" by (cases p)
      show ?thesis
      proof (cases cb)
        case (counterCallback cid)
        with Some p TimerFire have st: "run (evs @ [e]) = counter_tick cid ?s"
          by (simp add: run_snoc step_counter)
        from snoc.prems(1) obtain conn0 where old: "conns ?s c = Some conn0"
          and "close_emitted conn0 = close_emitted conn"
          "counterInterval conn0 = counterInterval conn" "randomInterval conn0 = randomInterval conn"
          unfolding st by (cases "conns ?s c") (auto simp: counter_tick_eq split: if_splits)
        with snoc.IH [OF old] snoc.prems(2,3) show ?thesis
          unfolding st by (simp add: counter_tick_eq)
      next
        case (randomCallback cid)
        with Some p TimerFire have st: "run (evs @ [e]) = random_tick cid u ?s"
          by (simp add: run_snoc step_random)
        from snoc.IH [of conn] snoc.prems show ?thesis
          unfolding st by (simp add: random_tick_eq)
      qed
    qed
  next
    case (PeerClose cid)
    show ?thesis
    proof (cases "conns ?s cid")
      case None
      with snoc PeerClose show ?thesis by (simp add: run_snoc step_PeerClose_none)
    next
      case (Some c0)
      show ?thesis
      proof (cases "close_emitted c0")
        case True
        with Some snoc PeerClose show ?thesis by (simp add: run_snoc step_PeerClose_again)
      next
        case False
        from wf_listener [OF w Some] obtain t1 t2 where
          l: "close_listener c0" "counterInterval c0 = Some t1" "randomInterval c0 = Some t2"
          by blast
        have st: "run (evs @ [e]) = ?s\<lparr>conns := (conns ?s)(cid \<mapsto> c0\<lparr>close_emitted := True\<rparr>),
            timers := (timers ?s)(t1 := None, t2 := None),
            trace := trace ?s @ [ClearInterval t1, ClearInterval t2]\<rparr>"
          using step_PeerClose_eq [OF Some False l] PeerClose by (simp add: run_snoc)
        show ?thesis
        proof (cases "c = cid")
          case True
          with snoc.prems l show ?thesis unfolding st by auto
        next
          case False
          with snoc.prems have "conns ?s c = Some conn" unfolding st by simp
          from snoc.IH [OF this snoc.prems(2,3)] show ?thesis unfolding st by simp
        qed
      qed
    qed
  qed
qed

lemma closed_stays:
  assumes "wf s" "conns s cid = Some c" "close_emitted c"
  shows "\<exists>c'. conns (step s e) cid = Some c' \<and> close_emitted c'"
proof (cases e)
  case Request
  from assms(2) wf_conns [OF assms(1), of cid] have "cid \<noteq> next_conn s" by auto
  with assms Request show ?thesis by (simp add: step_Request_eq)
next
  case (TimerFire tid u)
  show ?thesis
  proof (cases "timers s tid")
    case None
    with assms TimerFire show ?thesis by (simp add: step_stale)
  next
    case (Some p)
    obtain cb ms where "p = (cb, ms)" by (cases p)
    with Some assms TimerFire show ?thesis
      by (cases cb) (auto simp: step_counter step_random counter_tick_eq random_tick_eq)
  qed
next
  case (PeerClose cid')
  show ?thesis
  proof (cases "conns s cid'")
    case None
    with assms PeerClose show ?thesis by (simp add: step_PeerClose_none)
  next
    case (Some c0)
    show ?thesis
    proof (cases "close_emitted c0")
      case True
      with Some assms PeerClose show ?thesis by (simp add: step_PeerClose_again)
    next
      case False
      from wf_listener [OF assms(1) Some] obtain t1 t2 where
        l: "close_listener c0" "counterInterval c0 = Some t1" "randomInterval c0 = Some t2"
        by blast
      show ?thesis using assms PeerClose
        by (auto simp: step_PeerClose_eq [OF Some False l])
    qed
  qed
qed

lemma closed_silent:
  assumes "wf s" "conns s cid = Some c" "close_emitted c"
  shows "sends s e cid = []"
proof (cases e)
  case Request
  from assms(2) wf_conns [OF assms(1), of cid] have "cid \<noteq> next_conn s" by auto
  with Request show ?thesis by (simp add: sends_def)
next
  case (TimerFire tid u)
  show ?thesis
  proof (cases "timers s tid")
    case None
    with TimerFire show ?thesis by (simp add: sends_def)
  next
    case (Some p)
    obtain cb ms where p: "p = (cb, ms)" by (cases p)
    from wf_timers [OF assms(1) Some [unfolded p]] assms(2,3) have "cb_conn cb \<noteq> cid" by auto
    with Some p TimerFire show ?thesis by (cases cb) (simp_all add: sends_def)
  qed
next
  case (PeerClose cid')
  then show ?thesis by (simp add: sends_def)
qed

lemma closed_run:
  assumes "conns (run evs) cid = Some c" "close_emitted c"
  shows "(\<exists>c'. conns (run (evs @ evs')) cid = Some c' \<and> close_emitted c') \<and>
         body (run (evs @ evs')) cid = body (run evs) cid"
proof (induction evs' rule: rev_induct)
  case Nil
  with assms show ?case by simp
next
  case (snoc e evs')
  then obtain c' where c': "conns (run (evs @ evs')) cid = Some c'" "close_emitted c'"
    and b: "body (run (evs @ evs')) cid = body (run evs) cid" by blast
  have r: "run (evs @ evs' @ [e]) = step (run (evs @ evs')) e"
    using run_snoc [of "evs @ evs'" e] by simp
  show ?case
    using closed_stays [OF wf_run c', of e] closed_silent [OF wf_run c', of e] b
    by (simp add: r body_step [OF wf_run])
qed

lemma close_main:
  assumes c: "conns (run evs) cid = Some c"
  shows "\<exists>t1 t2. counterInterval c = Some t1 \<and> randomInterval c = Some t2 \<and>
           timers (run (evs @ PeerClose cid # evs')) t1 = None \<and>
           timers (run (evs @ PeerClose cid # evs')) t2 = None \<and>
           (\<forall>tid cb ms. timers (run (evs @ PeerClose cid # evs')) tid = Some (cb, ms) \<longrightarrow> cb_conn cb \<noteq> cid) \<and>
           body (run (evs @ PeerClose cid # evs')) cid = body (run evs) cid"
proof -
  let ?s = "run evs"
  let ?s1 = "run (evs @ [PeerClose cid])"
  let ?s2 = "run (evs @ PeerClose cid # evs')"
  note w = wf_run [of evs]
  from wf_listener [OF w c] obtain t1 t2 where
    l: "close_listener c" "counterInterval c = Some t1" "randomInterval c = Some t2"
    and lt: "t1 < next_timer ?s" "t2 < next_timer ?s" by blast
  have s2: "?s2 = run ((evs @ [PeerClose cid]) @ evs')" by simp
  have one: "\<exists>c1. conns ?s1 cid = Some c1 \<and> close_emitted c1 \<and>
      counterInterval c1 = Some t1 \<and> randomInterval c1 = Some t2"
    using c l by (cases "close_emitted c")
      (simp_all add: run_snoc step_PeerClose_again step_PeerClose_eq [OF c _ l])
  then obtain c1 where c1: "conns ?s1 cid = Some c1" "close_emitted c1"
    "counterInterval c1 = Some t1" "randomInterval c1 = Some t2" by blast
  have n1: "timers ?s1 t1 = None" by (rule closed_timers [OF c1(1,2)]) (simp add: c1)
  have n2: "timers ?s1 t2 = None" by (rule closed_timers [OF c1(1,2)]) (simp add: c1)
  have b1: "body ?s1 cid = body ?s cid" by (simp add: run_snoc body_PeerClose [OF w])
  from wf_listener [OF wf_run c1(1)] c1 have lt1: "t1 < next_timer ?s1" "t2 < next_timer ?s1"
    by auto
  from closed_run [OF c1(1,2), of evs'] obtain c2 where
    c2: "conns ?s2 cid = Some c2" "close_emitted c2" and b2: "body ?s2 cid = body ?s1 cid"
    unfolding s2 by blast
  have "timers ?s2 tid = Some (cb, ms) \<longrightarrow> cb_conn cb \<noteq> cid" for tid cb ms
    using wf_timers [OF wf_run, of "evs @ PeerClose cid # evs'" tid cb ms] c2 by auto
  moreover have "timers ?s2 t1 = None" "timers ?s2 t2 = None"
    unfolding s2 using timers_run_None [OF lt1(1) n1] timers_run_None [OF lt1(2) n2] by simp_all
  ultimately show ?thesis using l b1 b2 by simp
qed

subsection \<open>Handshake\<close>

lemma trace_step: "\<exists>es. trace (step s e) = trace s @ es"
proof (cases e)
  case Request
  then show ?thesis by (simp add: step_Request_eq)
next
  case (TimerFire tid u)
  show ?thesis
  proof (cases "timers s tid")
    case None
    with TimerFire show ?thesis by (simp add: step_stale)
  next
    case (Some p)
    obtain cb ms where "p = (cb, ms)" by (cases p)
    with Some TimerFire show ?thesis
      by (cases cb) (simp_all add: step_counter step_random counter_tick_eq random_tick_eq)
  qed
next
  case (PeerClose cid)
  then show ?thesis
    by (auto simp: step.simps close_handler_def prim_defs Let_def split: option.split)
qed

lemma next_conn_step:
  "next_conn (step s e) = (case e of Request \<Rightarrow> Suc (next_conn s) | _ \<Rightarrow> next_conn s)"
proof (cases e)
  case Request
  then show ?thesis by (simp add: step_Request_eq)
next
  case (TimerFire tid u)
  show ?thesis
  proof (cases "timers s tid")
    case None
    with TimerFire show ?thesis by (simp add: step_stale)
  next
    case (Some p)
    obtain cb ms where "p = (cb, ms)" by (cases p)
    with Some TimerFire show ?thesis
      by (cases cb) (simp_all add: step_counter step_random counter_tick_eq random_tick_eq)
  qed
next
  case (PeerClose cid)
  then show ?thesis
    by (auto simp: step.simps close_handler_def prim_defs Let_def split: option.split)
qed

lemma takeWhile_fresh: "\<forall>e \<in> set es. \<not> about c e \<Longrightarrow> takeWhile (\<lambda>e. \<not> starts c e) es = es"
proof (induction es)
  case Nil
  show ?case by simp
next
  case (Cons e es)
  then show ?case by (cases e) simp_all
qed

lemma handshake:
  assumes "c < next_conn (run evs)"
  shows "(\<exists>e \<in> set (trace (run evs)). starts c e) \<and>
         writes c (takeWhile (\<lambda>e. \<not> starts c e) (trace (run evs))) = connected_frame \<and>
         take 2 (body (run evs) c) = connected_frame"
  using assms
proof (induction evs rule: rev_induct)
  case Nil
  then show ?case by (simp add: run_def init_server_def)
next
  case (snoc e evs)
  let ?s = "run evs"
  note w = wf_run [of evs]
  show ?case
  proof (cases "c < next_conn ?s")
    case True
    from snoc.IH [OF True] obtain x where x: "x \<in> set (trace ?s)" "starts c x"
      and tw: "writes c (takeWhile (\<lambda>e. \<not> starts c e) (trace ?s)) = connected_frame"
      and t2: "take 2 (body ?s c) = connected_frame" by blast
    obtain es where es: "trace (step ?s e) = trace ?s @ es" using trace_step by blast
    from t2 have "2 \<le> length (body ?s c)"
      by (cases "body ?s c" rule: blocks.cases) (simp_all add: connected_frame_def)
    then have "take 2 (body (step ?s e) c) = connected_frame"
      using t2 by (simp add: body_step [OF w])
    moreover have "takeWhile (\<lambda>e. \<not> starts c e) (trace ?s @ es) = takeWhile (\<lambda>e. \<not> starts c e) (trace ?s)"
      using x by (intro takeWhile_append1) simp_all
    ultimately show ?thesis using x tw by (auto simp: run_snoc es)
  next
    case False
    with snoc.prems have e: "e = Request" and c: "c = next_conn ?s"
      by (auto simp: run_snoc next_conn_step split: event.splits)
    have fresh: "\<forall>x \<in> set (trace ?s). \<not> about c x" using wf_trace [OF w, of c] c by simp
    have tw: "takeWhile (\<lambda>e. \<not> starts c e) (trace ?s @ handler_effects c t) =
        trace ?s @ take 5 (handler_effects c t)" for t
      using takeWhile_fresh [OF fresh]
      by (simp add: takeWhile_append2 [of "trace ?s"] handler_effects_def)
    have "body ?s c = []" using body_fresh [of evs c] c by simp
    then have b: "body (step ?s Request) c = connected_frame"
      using c by (simp add: body_Request connected_frame_def)
    have tr: "trace (step ?s Request) = trace ?s @ handler_effects c (next_timer ?s)"
      by (simp add: step_Request_eq c)
    have st: "\<exists>x \<in> set (handler_effects c t). starts c x" for t
      by (simp add: handler_effects_def)
    have wr: "writes c (trace ?s) @ writes c (take 5 (handler_effects c t)) = connected_frame" for t
      using writes_not_about [OF fresh] by (simp add: handler_effects_def connected_frame_def)
    have "take 2 connected_frame = connected_frame" by (simp add: connected_frame_def)
    then show ?thesis
      unfolding run_snoc e using st [of "next_timer ?s"] by (auto simp: b tr tw wr)
  qed
qed

lemma bit_length_less: "n < 2 ^ bit_length n"
proof (induction n rule: bit_length.induct)
  case (1 n)
  show ?case
  proof (cases "n = 0")
    case True
    then show ?thesis by (simp add: bit_length.simps)
  next
    case False
    with 1 have "n div 2 < 2 ^ bit_length (n div 2)" by simp
    then have "n < 2 * 2 ^ bit_length (n div 2)" by linarith
    with False show ?thesis by (simp add: bit_length.simps [of n])
  qed
qed

lemma bit_length_ge: "n \<noteq> 0 \<Longrightarrow> 2 ^ (bit_length n - 1) \<le> n"
proof (induction n rule: bit_length.induct)
  case (1 n)
  show ?case
  proof (cases "n div 2 = 0")
    case True
    with 1 have "n = 1" by linarith
    then show ?thesis by (simp add: bit_length.simps)
  next
    case False
    with 1 have ih: "2 ^ (bit_length (n div 2) - 1) \<le> n div 2" by simp
    from False have "bit_length (n div 2) \<noteq> 0" by (simp add: bit_length.simps [of "n div 2"])
    then obtain k where k: "bit_length (n div 2) = Suc k" by (cases "bit_length (n div 2)") auto
    from ih k have "2 * 2 ^ k \<le> n" by simp
    with 1 k show ?thesis by (simp add: bit_length.simps [of n])
  qed
qed

lemma bit_length_le: "n < 2 ^ k \<Longrightarrow> bit_length n \<le> k"
proof (rule ccontr)
  assume a: "n < 2 ^ k" and "\<not> bit_length n \<le> k"
  then have "k \<le> bit_length n - 1" and "n \<noteq> 0" by (auto simp: bit_length.simps [of n] split: if_splits)
  then have "(2::nat) ^ k \<le> 2 ^ (bit_length n - 1)" by (simp add: power_increasing)
  also have "\<dots> \<le> n" using \<open>n \<noteq> 0\<close> by (rule bit_length_ge)
  finally show False using a by simp
qed

lemma unit_double_le:
  assumes "binary64 m" and "m < 2 ^ 1074"
  shows "m + 2 ^ 1021 \<le> 2 ^ 1074"
proof (cases "bit_length m \<le> 1073")
  case True
  have "m < 2 ^ bit_length m" by (rule bit_length_less)
  also have "(2::nat) ^ bit_length m \<le> 2 ^ 1073" using True by (rule power_increasing) simp
  finally have "m < 2 ^ 1073" .
  moreover have "(2::nat) ^ 1021 \<le> 2 ^ 1073" by (rule power_increasing) simp_all
  moreover have "(2::nat) ^ 1074 = 2 ^ 1073 + 2 ^ 1073" by (simp add: power_Suc [symmetric] del: power_Suc)
  ultimately show ?thesis by linarith
next
  case False
  moreover have "bit_length m \<le> 1074" using assms(2) by (rule bit_length_le)
  ultimately have "bit_length m = 1074" by simp
  with assms(1) have "m mod 2 ^ 1021 = 0" by (simp add: binary64_def)
  then obtain j where j: "m = 2 ^ 1021 * j" by (auto simp: mod_eq_0_iff_dvd)
  have p: "(2::nat) ^ 1074 = 2 ^ 1021 * 2 ^ 53" by (simp add: power_add [symmetric])
  from assms(2) j p have "j < 2 ^ 53" by simp
  then have "j + 1 \<le> 2 ^ 53" by simp
  then have "2 ^ 1021 * (j + 1) \<le> (2::nat) ^ 1021 * 2 ^ 53" by (rule mult_le_mono2)
  with j p show ?thesis by (simp add: algebra_simps)
qed

lemma round_binary64_le_pow:
  assumes "53 < bit_length n"
  shows "round_binary64 n \<le> 2 ^ bit_length n"
proof -
  define sh where "sh = bit_length n - 53"
  have L: "bit_length n = sh + 53" using assms by (simp add: sh_def)
  have "n < 2 ^ (sh + 53)" using bit_length_less [of n] by (simp add: L)
  then have "n < 2 ^ sh * 2 ^ 53" by (simp add: power_add)
  then have "n div 2 ^ sh < 2 ^ 53" by (simp add: less_mult_imp_div_less mult.commute)
  then have q: "n div 2 ^ sh + 1 \<le> 2 ^ 53" by simp
  have "round_binary64 n \<le> (n div 2 ^ sh + 1) * 2 ^ sh"
    using assms by (simp add: round_binary64_def Let_def sh_def)
  also have "\<dots> \<le> 2 ^ 53 * 2 ^ sh" using q by (rule mult_le_mono1)
  also have "\<dots> = 2 ^ bit_length n" by (simp add: L power_add)
  finally show ?thesis .
qed

lemma times100_below:
  assumes "m + 2 ^ 1021 \<le> 2 ^ 1074"
  shows "round_binary64 (100 * m) < 100 * 2 ^ 1074"
proof -
  define a :: nat where "a = 2 ^ 1021"
  have a0: "0 < a" by (simp add: a_def)
  have p74: "(2::nat) ^ 1074 = 9007199254740992 * a" by (simp add: a_def power_add [symmetric])
  have p80: "(2::nat) ^ 1080 = 576460752303423488 * a" by (simp add: a_def power_add [symmetric])
  have p81: "(2::nat) ^ 1081 = 1152921504606846976 * a" by (simp add: a_def power_add [symmetric])
  have p28: "(2::nat) ^ 1028 = 128 * a" by (simp add: a_def power_add [symmetric])
  have p27: "(2::nat) ^ 1027 = 64 * a" by (simp add: a_def power_add [symmetric])
  have m: "m + a \<le> 9007199254740992 * a" using assms unfolding p74 a_def [symmetric] .
  define n where "n = 100 * m"
  have n: "n + 100 * a \<le> 900719925474099200 * a" using m by (simp add: n_def)
  then have "n < 1152921504606846976 * a" using a0 by simp
  then have "n < 2 ^ 1081" unfolding p81 .
  then have L: "bit_length n \<le> 1081" by (rule bit_length_le)
  consider "bit_length n \<le> 53" | "53 < bit_length n" "bit_length n \<le> 1080" | "bit_length n = 1081"
    using L by linarith
  then have "round_binary64 n < 100 * (9007199254740992 * a)"
  proof cases
    case 1
    then have "round_binary64 n = n" by (simp add: round_binary64_def)
    with n a0 show ?thesis by simp
  next
    case 2
    have "round_binary64 n \<le> 2 ^ bit_length n" using 2(1) by (rule round_binary64_le_pow)
    also have "(2::nat) ^ bit_length n \<le> 2 ^ 1080" using 2(2) by (rule power_increasing) simp
    finally have "round_binary64 n \<le> 576460752303423488 * a" unfolding p80 .
    then show ?thesis using a0 by simp
  next
    case 3
    define q where "q = n div (128 * a)"
    define r where "r = n mod (128 * a)"
    have nqr: "n = q * (128 * a) + r" unfolding q_def r_def by (rule div_mult_mod_eq [symmetric])
    have r: "r < 128 * a" using a0 by (simp add: r_def)
    have "round_binary64 n =
        (if n mod 2 ^ 1028 < 2 ^ 1027 \<or> (n mod 2 ^ 1028 = 2 ^ 1027 \<and> even (n div 2 ^ 1028))
         then n div 2 ^ 1028 else n div 2 ^ 1028 + 1) * 2 ^ 1028"
      using 3 by (simp add: round_binary64_def Let_def del: power_numeral)
    then have rb: "round_binary64 n = (if r < 64 * a \<or> (r = 64 * a \<and> even q) then q else q + 1) * (128 * a)"
      unfolding p28 p27 q_def r_def .
    have qlt: "q < 7036874417766400"
    proof (rule ccontr)
      assume "\<not> q < 7036874417766400"
      then have "7036874417766400 * a \<le> q * a" by (intro mult_le_mono1) simp
      with n nqr a0 show False by simp
    qed
    show ?thesis
    proof (cases "q + 1 < 7036874417766400")
      case True
      have "round_binary64 n \<le> (q + 1) * (128 * a)" by (simp add: rb)
      also have "\<dots> < 7036874417766400 * (128 * a)" using True a0 by simp
      finally show ?thesis by simp
    next
      case False
      with qlt have qe: "q = 7036874417766399" by simp
      with n nqr have "r < 64 * a" using a0 by simp
      then have "round_binary64 n = q * (128 * a)" by (simp add: rb)
      with qe a0 show ?thesis by simp
    qed
  qed
  then show ?thesis unfolding p74 n_def .
qed

lemma floor_times_100:
  assumes "unit_sample u"
  shows "Math_floor (times_100 u) \<in> {0..99}"
proof -
  from assms have "binary64 u" "u < 2 ^ 1074" by (simp_all add: unit_sample_def)
  then have "round_binary64 (100 * u) < 100 * 2 ^ 1074"
    by (intro times100_below unit_double_le)
  then have "round_binary64 (100 * u) div 2 ^ 1074 < 100"
    by (simp add: less_mult_imp_div_less del: power_numeral)
  then show ?thesis
    by (simp add: Math_floor_def times_100_def del: power_numeral)
qed

lemma random_data:
  assumes "list_all sample_ok evs"
  shows "set (data_of ''random'' (body (run evs) c)) \<subseteq>
           (\<lambda>k. data_line [(''number'', JSNumber k)]) ` {0..99}"
  using assms
proof (induction evs rule: rev_induct)
  case Nil
  show ?case by (simp add: run_def init_server_def body_def)
next
  case (snoc e evs)
  let ?s = "run evs"
  from snoc have ih: "set (data_of ''random'' (body ?s c)) \<subseteq>
      (\<lambda>k. data_line [(''number'', JSNumber k)]) ` {0..99}" and ok: "sample_ok e" by simp_all
  have d: "data_of ''random'' (body (step ?s e) c) =
      data_of ''random'' (body ?s c) @ data_of ''random'' (concat (map chunks_of (sends ?s e c)))"
    by (simp add: body_step [OF wf_run] data_of_append even_body)
  have "set (data_of ''random'' (concat (map chunks_of (sends ?s e c)))) \<subseteq>
      (\<lambda>k. data_line [(''number'', JSNumber k)]) ` {0..99}"
  proof (cases e)
    case Request
    then show ?thesis by (simp add: sends_def data_of_def)
  next
    case (TimerFire tid u)
    with ok have "unit_sample u" by simp
    then have "Math_floor (times_100 u) \<in> {0..99}" by (rule floor_times_100)
    with TimerFire show ?thesis
      by (auto simp: sends_def data_of_def split: option.split callback.split)
  next
    case (PeerClose cid)
    then show ?thesis by (simp add: sends_def)
  qed
  with ih show ?case by (simp add: run_snoc d)
qed

lemma others_untouched:
  assumes "timers (run evs) tid = Some (cb, ms)" "cb_conn cb \<noteq> c"
  shows "counter_of (step (run evs) (TimerFire tid u)) c = counter_of (run evs) c"
    and "body (step (run evs) (TimerFire tid u)) c = body (run evs) c"
  using assms
  by (cases cb; simp add: counter_of_step [OF wf_run] body_step [OF wf_run] sends_def)+

subsection \<open>Events of other requests\<close>

lemma interval_owner:
  assumes "conns (run evs) c = Some conn"
  shows "(counterInterval conn = Some t \<longrightarrow>
            timers (run evs) t = None \<or> timers (run evs) t = Some (counterCallback c, 1000)) \<and>
         (randomInterval conn = Some t \<longrightarrow>
            timers (run evs) t = None \<or> timers (run evs) t = Some (randomCallback c, 2000))"
  using assms
proof (induction evs arbitrary: conn rule: rev_induct)
  case Nil
  then show ?case by (simp add: run_def init_server_def)
next
  case (snoc e evs)
  let ?s = "run evs"
  note w = wf_run [of evs]
  show ?case
  proof (cases e)
    case Request
    show ?thesis
    proof (cases "c = next_conn ?s")
      case True
      with snoc.prems Request show ?thesis by (auto simp: run_snoc step_Request_eq)
    next
      case False
      with snoc.prems Request have old: "conns ?s c = Some conn"
        by (simp add: run_snoc step_Request_eq)
      from wf_listener [OF w old] have
        "counterInterval conn = Some t \<or> randomInterval conn = Some t \<longrightarrow> t < next_timer ?s"
        by auto
      with snoc.IH [OF old] Request show ?thesis
        by (auto simp: run_snoc step_Request_eq)
    qed
  next
    case (TimerFire tid u)
    show ?thesis
    proof (cases "timers ?s tid")
      case None
      with snoc TimerFire show ?thesis by (simp add: run_snoc step_stale)
    next
      case (Some p)
      obtain cb ms where p: "p = (cb, ms)" by (cases p)
      show ?thesis
      proof (cases cb)
        case (counterCallback cid)
        with Some p TimerFire have st: "run (evs @ [e]) = counter_tick cid ?s"
          by (simp add: run_snoc step_counter)
        from snoc.prems obtain conn0 where old: "conns ?s c = Some conn0"
          and "counterInterval conn0 = counterInterval conn" "randomInterval conn0 = randomInterval conn"
          unfolding st by (cases "conns ?s c") (auto simp: counter_tick_eq split: if_splits)
        with snoc.IH [OF old] show ?thesis
          unfolding st by (simp add: counter_tick_eq)
      next
        case (randomCallback cid)
        with Some p TimerFire have st: "run (evs @ [e]) = random_tick cid u ?s"
          by (simp add: run_snoc step_random)
        from snoc.IH [of conn] snoc.prems show ?thesis
          unfolding st by (simp add: random_tick_eq)
      qed
    qed
  next
    case (PeerClose cid)
    show ?thesis
    proof (cases "conns ?s cid")
      case None
      with snoc PeerClose show ?thesis by (simp add: run_snoc step_PeerClose_none)
    next
      case (Some c0)
      show ?thesis
      proof (cases "close_emitted c0")
        case True
        with Some snoc PeerClose show ?thesis by (simp add: run_snoc step_PeerClose_again)
      next
        case False
        from wf_listener [OF w Some] obtain t1 t2 where
          l: "close_listener c0" "counterInterval c0 = Some t1" "randomInterval c0 = Some t2"
          by blast
        have st: "run (evs @ [e]) = ?s\<lparr>conns := (conns ?s)(cid \<mapsto> c0\<lparr>close_emitted := True\<rparr>),
            timers := (timers ?s)(t1 := None, t2 := None),
            trace := trace ?s @ [ClearInterval t1, ClearInterval t2]\<rparr>"
          using step_PeerClose_eq [OF Some False l] PeerClose by (simp add: run_snoc)
        show ?thesis
        proof (cases "c = cid")
          case True
          with snoc.prems Some have "conn = c0\<lparr>close_emitted := True\<rparr>" unfolding st by simp
          with snoc.IH [OF Some [folded True]] show ?thesis unfolding st by auto
        next
          case False
          with snoc.prems have "conns ?s c = Some conn" unfolding st by simp
          from snoc.IH [OF this] show ?thesis unfolding st by auto
        qed
      qed
    qed
  qed
qed

lemma foreign_step:
  assumes "foreign (run evs) c e"
  shows "agree c (step (run evs) e) (run evs)"
proof (cases e)
  case Request
  with assms show ?thesis by simp
next
  case (TimerFire tid u)
  let ?s = "run evs"
  show ?thesis
  proof (cases "timers ?s tid")
    case None
    with TimerFire show ?thesis by (simp add: step_stale agree_def)
  next
    case (Some p)
    obtain cb ms where p: "p = (cb, ms)" by (cases p)
    with assms TimerFire Some have ne: "cb_conn cb \<noteq> c" by (simp split: if_splits)
    with Some p TimerFire show ?thesis
      by (cases cb)
        (auto simp: step_counter step_random agree_def counter_tick_eq random_tick_eq body_def)
  qed
next
  case (PeerClose cid)
  let ?s = "run evs"
  from assms PeerClose have ne: "cid \<noteq> c" by simp
  show ?thesis
  proof (cases "conns ?s cid")
    case None
    with PeerClose show ?thesis by (simp add: step_PeerClose_none agree_def)
  next
    case (Some c0)
    show ?thesis
    proof (cases "close_emitted c0")
      case True
      with Some PeerClose show ?thesis by (simp add: step_PeerClose_again agree_def)
    next
      case False
      from wf_listener [OF wf_run Some] obtain t1 t2 where
        l: "close_listener c0" "counterInterval c0 = Some t1" "randomInterval c0 = Some t2"
        by blast
      from interval_owner [OF Some, of t1] interval_owner [OF Some, of t2] l ne
      have o: "owned c (timers ?s t1) = None" "owned c (timers ?s t2) = None" by auto
      show ?thesis
        using ne o PeerClose
        by (auto simp: step_PeerClose_eq [OF Some False l] agree_def body_def)
    qed
  qed
qed

lemma agree_refl: "agree c s s"
  by (simp add: agree_def)

lemma agree_trans: "agree c s1 s2 \<Longrightarrow> agree c s2 s3 \<Longrightarrow> agree c s1 s3"
  by (simp add: agree_def)

lemma agree_sym: "agree c s1 s2 \<Longrightarrow> agree c s2 s1"
  by (simp add: agree_def)

lemma agree_foreign: "agree c s s' \<Longrightarrow> foreign s c e = foreign s' c e"
  by (cases e) (simp_all add: agree_def)

lemma own_timer_step:
  assumes "owned c (timers (run evs) tid) = Some (cb, ms)"
  shows "conns (step (run evs) (TimerFire tid u)) c =
           (case cb of counterCallback _ \<Rightarrow> map_option (\<lambda>x. x\<lparr>counter := counter x + 1\<rparr>) (conns (run evs) c)
                     | randomCallback _ \<Rightarrow> conns (run evs) c)"
    and "body (step (run evs) (TimerFire tid u)) c =
           body (run evs) c @
           (case cb of
              counterCallback _ \<Rightarrow>
                [''event: counter\<newline>'',
                 data_line [(''count'', JSNumber ((case conns (run evs) c of None \<Rightarrow> 0 | Some x \<Rightarrow> counter x) + 1))]]
            | randomCallback _ \<Rightarrow>
                [''event: random\<newline>'',
                 data_line [(''number'', JSNumber (Math_floor (times_100 u)))]])"
    and "timers (step (run evs) (TimerFire tid u)) = timers (run evs)"
    and "next_conn (step (run evs) (TimerFire tid u)) = next_conn (run evs)"
    and "next_timer (step (run evs) (TimerFire tid u)) = next_timer (run evs)"
proof -
  let ?s = "run evs"
  from assms have t: "timers ?s tid = Some (cb, ms)" and c: "cb_conn cb = c"
    by (cases "timers ?s tid"; auto split: if_splits)+
  from wf_timers [OF wf_run t] c have ex: "conns ?s c \<noteq> None" by auto
  show "conns (step ?s (TimerFire tid u)) c =
           (case cb of counterCallback _ \<Rightarrow> map_option (\<lambda>x. x\<lparr>counter := counter x + 1\<rparr>) (conns ?s c)
                     | randomCallback _ \<Rightarrow> conns ?s c)"
    using t c by (cases cb) (simp_all add: step_counter step_random counter_tick_eq random_tick_eq)
  show "body (step ?s (TimerFire tid u)) c =
           body ?s c @
           (case cb of
              counterCallback _ \<Rightarrow>
                [''event: counter\<newline>'',
                 data_line [(''count'', JSNumber ((case conns ?s c of None \<Rightarrow> 0 | Some x \<Rightarrow> counter x) + 1))]]
            | randomCallback _ \<Rightarrow>
                [''event: random\<newline>'',
                 data_line [(''number'', JSNumber (Math_floor (times_100 u)))]])"
    using t c ex
    by (cases cb) (auto simp: step_counter step_random body_counter_tick body_random_tick counter_of_def)
  show "timers (step ?s (TimerFire tid u)) = timers ?s"
    "next_conn (step ?s (TimerFire tid u)) = next_conn ?s"
    "next_timer (step ?s (TimerFire tid u)) = next_timer ?s"
    using t by (cases cb; simp add: step_counter step_random counter_tick_eq random_tick_eq)+
qed

lemma agree_step:
  assumes "agree c (run a) (run b)"
  shows "agree c (step (run a) e) (step (run b) e)"
proof (cases "foreign (run a) c e")
  case True
  then have "foreign (run b) c e" using agree_foreign [OF assms] by simp
  from foreign_step [OF True] assms agree_sym [OF foreign_step [OF this]]
  show ?thesis by (blast intro: agree_trans)
next
  case False
  let ?s = "run a" and ?s' = "run b"
  show ?thesis
  proof (cases e)
    case Request
    with assms show ?thesis
      by (auto simp: agree_def body_Request) (auto simp: step_Request_eq)
  next
    case (TimerFire tid u)
    with False obtain cb ms where o: "owned c (timers ?s tid) = Some (cb, ms)"
      by (cases "owned c (timers ?s tid)") auto
    with assms have o': "owned c (timers ?s' tid) = Some (cb, ms)" by (simp add: agree_def)
    from assms show ?thesis
      unfolding TimerFire agree_def own_timer_step [OF o] own_timer_step [OF o']
      by (cases cb) simp_all
  next
    case (PeerClose cid)
    with False have cid: "cid = c" by simp
    from assms have eq: "conns ?s c = conns ?s' c" by (simp add: agree_def)
    show ?thesis
    proof (cases "conns ?s c")
      case None
      with eq assms PeerClose cid show ?thesis by (simp add: step_PeerClose_none)
    next
      case (Some c0)
      with eq have Some': "conns ?s' c = Some c0" by simp
      show ?thesis
      proof (cases "close_emitted c0")
        case True
        with Some Some' assms PeerClose cid show ?thesis by (simp add: step_PeerClose_again)
      next
        case False
        from wf_listener [OF wf_run Some] obtain t1 t2 where
          l: "close_listener c0" "counterInterval c0 = Some t1" "randomInterval c0 = Some t2"
          by blast
        from assms show ?thesis
          unfolding PeerClose cid step_PeerClose_eq [OF Some False l]
            step_PeerClose_eq [OF Some' False l]
          by (simp add: agree_def body_def)
      qed
    qed
  qed
qed

lemma foreign_run:
  assumes "foreign (run evs1) c e"
  shows "agree c (run (evs1 @ e # evs2)) (run (evs1 @ evs2))"
proof (induction evs2 rule: rev_induct)
  case Nil
  from foreign_step [OF assms] show ?case by (simp add: run_snoc)
next
  case (snoc x evs2)
  have "agree c (step (run (evs1 @ e # evs2)) x) (step (run (evs1 @ evs2)) x)"
    using snoc by (rule agree_step)
  then show ?case
    using run_snoc [of "evs1 @ e # evs2" x] run_snoc [of "evs1 @ evs2" x] by simp
qed


subsection \<open>Evaluation on concrete runs and samples\<close>

lemmas server_eval = run_def init_server_def step.simps events_handler_def res_setHeader_def
  res_write_def setInterval_def clearInterval_def update_conn_def req_on_close_def
  counter_tick_def random_tick_def close_handler_def counter_of_def body_def Let_def

lemmas text_eval = data_of_def data_line_def JSON_stringify_def quote_def quote_char_def
  show_int_def show_nat.simps

lemma bit_length_double: "0 < n \<Longrightarrow> bit_length (2 * n) = Suc (bit_length n)"
  by (subst bit_length.simps) simp

lemma bit_length_shift: "0 < n \<Longrightarrow> bit_length (n * 2 ^ k) = bit_length n + k"
proof (induction k)
  case 0
  show ?case by simp
next
  case (Suc k)
  then have "bit_length (2 * (n * 2 ^ k)) = Suc (bit_length n + k)"
    by (subst bit_length_double) simp_all
  then show ?case by (simp add: mult.commute mult.left_commute)
qed

text \<open>The sample \<open>0.57\<close>, that is \<open>5134103575202365 * 2^-53\<close>: the product with 100 rounds to \<open>56.99999999999999\<close>.\<close>

lemma sample_057: "unit_sample (5134103575202365 * 2 ^ 1021)"
proof -
  have b: "bit_length (5134103575202365 * 2 ^ 1021) = 1074"
    by (subst bit_length_shift) (simp_all add: bit_length.simps)
  have "(5134103575202365::nat) * 2 ^ 1021 < 9007199254740992 * 2 ^ 1021" by simp
  also have "\<dots> = 2 ^ 1074" by (simp add: power_add [symmetric])
  finally have lt: "(5134103575202365::nat) * 2 ^ 1021 < 2 ^ 1074" .
  also have "(2::nat) ^ 1074 < 2 ^ 2098" by (rule power_strict_increasing) simp_all
  finally show ?thesis using lt by (simp add: unit_sample_def binary64_def b del: power_numeral)
qed

lemma floor_057: "Math_floor (times_100 (5134103575202365 * 2 ^ 1021)) = 56"
proof -
  define a :: nat where "a = 2 ^ 1021"
  have a0: "0 < a" by (simp add: a_def)
  have p74: "(2::nat) ^ 1074 = 9007199254740992 * a" by (simp add: a_def power_add [symmetric])
  have p27: "(2::nat) ^ 1027 = 64 * a" by (simp add: a_def power_add [symmetric])
  have p26: "(2::nat) ^ 1026 = 32 * a" by (simp add: a_def power_add [symmetric])
  have b: "bit_length (513410357520236500 * 2 ^ 1021) = 1080"
    by (subst bit_length_shift) (simp_all add: bit_length.simps)
  let ?n = "513410357520236500 * 2 ^ 1021 :: nat"
  have "round_binary64 ?n =
      (if ?n mod 2 ^ 1027 < 2 ^ 1026 \<or> (?n mod 2 ^ 1027 = 2 ^ 1026 \<and> even (?n div 2 ^ 1027))
       then ?n div 2 ^ 1027 else ?n div 2 ^ 1027 + 1) * 2 ^ 1027"
    unfolding round_binary64_def b Let_def by (simp del: power_numeral)
  then have "round_binary64 (513410357520236500 * a) =
      (if (513410357520236500 * a) mod (64 * a) < 32 * a \<or>
          ((513410357520236500 * a) mod (64 * a) = 32 * a \<and>
           even ((513410357520236500 * a) div (64 * a)))
       then (513410357520236500 * a) div (64 * a)
       else (513410357520236500 * a) div (64 * a) + 1) * (64 * a)"
    unfolding p27 p26 a_def [symmetric] .
  moreover have "(513410357520236500 * a) div (64 * a) = 8022036836253695" using a0 by simp
  moreover have "(513410357520236500 * a) mod (64 * a) = 20 * a"
    using a0 mult_mod_left [of 513410357520236500 64 a, symmetric] by (simp add: mult.commute)
  ultimately have "round_binary64 (513410357520236500 * a) = 513410357520236480 * a"
    using a0 by simp
  then have "Math_floor (round_binary64 (513410357520236500 * a)) = 56"
    unfolding Math_floor_def p74 using a0 by simp
  then show ?thesis unfolding times_100_def a_def by simp
qed


section \<open>Properties of the client\<close>

lemmas json_eval = JSON_parse_def utf16_def is_ws_def is_digit_def lex_number_def lex_int_def
  lex_frac_def lex_exp_def digits_val_def hex_val_def unescape_def Let_def

subsection \<open>What the server serialises, \<open>JSON.parse\<close> reads back\<close>

lemma digit_char: "d < 10 \<Longrightarrow> (of_char (''0123456789'' ! d) :: nat) = 48 + d"
proof -
  assume "d < 10"
  then have "d = 0 \<or> d = 1 \<or> d = 2 \<or> d = 3 \<or> d = 4 \<or> d = 5 \<or> d = 6 \<or> d = 7 \<or> d = 8 \<or> d = 9"
    by arith
  then show ?thesis by (elim disjE) simp_all
qed

lemma utf16_append [simp]: "utf16 (xs @ ys) = utf16 xs @ utf16 ys"
  by (simp add: utf16_def)

lemma utf16_Cons [simp]: "utf16 (x # xs) = of_char x # utf16 xs"
  by (simp add: utf16_def)

lemma utf16_Nil [simp]: "utf16 [] = []"
  by (simp add: utf16_def)

lemma show_nat_digits: "c \<in> set (utf16 (show_nat n)) \<Longrightarrow> is_digit c"
proof (induction n rule: show_nat.induct)
  case (1 n)
  show ?case
  proof (cases "n < 10")
    case True
    with 1(2) show ?thesis by (simp add: show_nat.simps [of n] digit_char is_digit_def)
  next
    case False
    with 1 show ?thesis
      by (auto simp: show_nat.simps [of n] digit_char is_digit_def)
  qed
qed

lemma digits_val_snoc: "digits_val (ds @ [d]) = 10 * digits_val ds + (d - 48)"
  by (simp add: digits_val_def)

lemma digits_val_show_nat: "digits_val (utf16 (show_nat n)) = n"
proof (induction n rule: show_nat.induct)
  case (1 n)
  show ?case
  proof (cases "n < 10")
    case True
    then show ?thesis by (simp add: show_nat.simps [of n] digit_char digits_val_def)
  next
    case False
    with 1 show ?thesis
      by (simp add: show_nat.simps [of n] digit_char digits_val_snoc)
  qed
qed

lemma show_nat_first:
  "\<exists>d ds. utf16 (show_nat n) = d # ds \<and> is_digit d \<and> (d = 48 \<longrightarrow> n = 0 \<and> ds = [])"
proof (induction n rule: show_nat.induct)
  case (1 n)
  show ?case
  proof (cases "n < 10")
    case True
    then show ?thesis by (simp add: show_nat.simps [of n] digit_char is_digit_def)
  next
    case False
    with 1 obtain d ds where "utf16 (show_nat (n div 10)) = d # ds" "is_digit d"
      "d = 48 \<longrightarrow> n div 10 = 0 \<and> ds = []" by blast
    with False show ?thesis by (auto simp: show_nat.simps [of n])
  qed
qed

lemma lex_int_show_nat:
  assumes "\<not> is_digit c"
  shows "lex_int (utf16 (show_nat n) @ c # rest) = Some (n, c # rest)"
proof -
  obtain d ds where d: "utf16 (show_nat n) = d # ds" "is_digit d" "d = 48 \<longrightarrow> n = 0 \<and> ds = []"
    using show_nat_first by blast
  have all: "\<forall>x \<in> set (utf16 (show_nat n)). is_digit x" by (simp add: show_nat_digits)
  have tw: "takeWhile is_digit (utf16 (show_nat n) @ c # rest) = utf16 (show_nat n)"
    using all assms by (simp add: takeWhile_append2)
  have dw: "dropWhile is_digit (utf16 (show_nat n) @ c # rest) = c # rest"
    using all assms by (simp add: dropWhile_append2)
  show ?thesis
  proof (cases "d = 48")
    case True
    with d show ?thesis by (simp add: lex_int_def)
  next
    case False
    have "lex_int (utf16 (show_nat n) @ c # rest) =
        Some (digits_val (takeWhile is_digit (utf16 (show_nat n) @ c # rest)),
              dropWhile is_digit (utf16 (show_nat n) @ c # rest))"
      using d False by (simp add: lex_int_def)
    then show ?thesis by (simp only: tw dw digits_val_show_nat)
  qed
qed

lemma lex_number_show_nat:
  "lex_number (utf16 (show_nat n) @ 0x7D # rest) = Some (of_nat n, 0x7D # rest)"
proof -
  obtain d ds where d: "utf16 (show_nat n) = d # ds" "is_digit d"
    using show_nat_first by blast
  then have nd: "d \<noteq> 0x2D" by (auto simp: is_digit_def)
  have "lex_int (utf16 (show_nat n) @ 0x7D # rest) = Some (n, 0x7D # rest)"
    by (rule lex_int_show_nat) (simp add: is_digit_def)
  then have "lex_int (d # ds @ 0x7D # rest) = Some (n, 0x7D # rest)" by (simp add: d)
  with nd show ?thesis
    by (simp add: lex_number_def d lex_frac_def lex_exp_def)
qed

lemma lex_show_nat:
  "lex (utf16 (show_nat n) @ 0x7D # rest) =
     map_option (Cons (TNum (of_nat n))) (lex (0x7D # rest))"
proof -
  obtain d ds where d: "utf16 (show_nat n) = d # ds" "is_digit d"
    using show_nat_first by blast
  have "lex_number (d # ds @ 0x7D # rest) = Some (of_nat n, 0x7D # rest)"
    using lex_number_show_nat [of n rest] by (simp add: d)
  with d(2) show ?thesis
    by (auto simp: d(1) is_digit_def is_ws_def)
qed

lemma parse_count:
  "0 \<le> k \<Longrightarrow> JSON_parse (utf16 (JSON_stringify [(''count'', JSNumber k)])) =
     Some (JObj [(utf16 ''count'', JNum (of_int k))])"
  by (simp add: JSON_stringify_def quote_def quote_char_def show_int_def JSON_parse_def
      is_ws_def is_digit_def lex_show_nat)

lemma parse_number:
  "0 \<le> k \<Longrightarrow> JSON_parse (utf16 (JSON_stringify [(''number'', JSNumber k)])) =
     Some (JObj [(utf16 ''number'', JNum (of_int k))])"
  by (simp add: JSON_stringify_def quote_def quote_char_def show_int_def JSON_parse_def
      is_ws_def is_digit_def lex_show_nat)

lemma parse_message:
  "JSON_parse (utf16 (JSON_stringify [(''message'', JSString ''Connected to event stream'')])) =
     Some (JObj [(utf16 ''message'', JStr (utf16 ''Connected to event stream''))])"
  by (simp add: JSON_stringify_def quote_def quote_char_def JSON_parse_def is_ws_def is_digit_def
    unescape_def)

subsection \<open>Framing\<close>

lemma framedI:
  assumes "CHR ''\<newline>'' \<notin> set name" "CHR ''\<newline>'' \<notin> set json"
    "JSON_parse (utf16 json) = Some (JObj kvs)"
  shows "framed (''event: '' @ name @ ''\<newline>'', ''data: '' @ json @ ''\<newline>\<newline>'')"
proof -
  have e: "butlast (''event: '' @ name @ ''\<newline>'') = ''event: '' @ name"
    using butlast_snoc [of "''event: '' @ name" "CHR ''\<newline>''"] by simp
  have "butlast (''data: '' @ json @ ''\<newline>\<newline>'') = ''data: '' @ json @ ''\<newline>''"
    using butlast_snoc [of "''data: '' @ json @ ''\<newline>''" "CHR ''\<newline>''"] by simp
  moreover have "butlast (''data: '' @ json @ ''\<newline>'') = ''data: '' @ json"
    using butlast_snoc [of "''data: '' @ json" "CHR ''\<newline>''"] by simp
  ultimately have d: "butlast (butlast (''data: '' @ json @ ''\<newline>\<newline>'')) = ''data: '' @ json"
    by simp
  show ?thesis
    unfolding framed_def Let_def fst_conv snd_conv e d
    using assms by (simp add: sse_block_def is_object_def)
qed

lemma payload_data_line: "payload_of (data_line props) = JSON_parse (utf16 (JSON_stringify props))"
proof -
  have "butlast (''data: '' @ JSON_stringify props @ ''\<newline>\<newline>'') =
      ''data: '' @ JSON_stringify props @ ''\<newline>''"
    using butlast_snoc [of "''data: '' @ JSON_stringify props @ ''\<newline>''" "CHR ''\<newline>''"]
    by simp
  moreover have "butlast (''data: '' @ JSON_stringify props @ ''\<newline>'') =
      ''data: '' @ JSON_stringify props"
    using butlast_snoc [of "''data: '' @ JSON_stringify props" "CHR ''\<newline>''"] by simp
  ultimately show ?thesis by (simp add: payload_of_def data_line_def)
qed

lemma payload_count:
  "0 \<le> k \<Longrightarrow> payload_of (data_line [(''count'', JSNumber k)]) =
     Some (JObj [(utf16 ''count'', JNum (of_int k))])"
  by (simp only: payload_data_line parse_count)

lemma payload_number:
  "0 \<le> k \<Longrightarrow> payload_of (data_line [(''number'', JSNumber k)]) =
     Some (JObj [(utf16 ''number'', JNum (of_int k))])"
  by (simp only: payload_data_line parse_number)

lemma show_nat_no_newline: "CHR ''\<newline>'' \<notin> set (show_nat n)"
proof
  assume "CHR ''\<newline>'' \<in> set (show_nat n)"
  then have "(of_char CHR ''\<newline>'' :: nat) \<in> of_char ` set (show_nat n)" by (rule imageI)
  then have "(of_char CHR ''\<newline>'' :: nat) \<in> set (utf16 (show_nat n))"
    by (simp only: utf16_def set_map)
  then have "is_digit (of_char CHR ''\<newline>'')" by (rule show_nat_digits)
  then show False by (simp add: is_digit_def)
qed

lemma framed_count:
  "0 \<le> k \<Longrightarrow> framed (''event: counter\<newline>'', data_line [(''count'', JSNumber k)])"
  using framedI [of "''counter''" "JSON_stringify [(''count'', JSNumber k)]", OF _ _ parse_count]
  by (simp add: data_line_def JSON_stringify_def quote_def quote_char_def show_int_def
      show_nat_no_newline)

lemma framed_number:
  "0 \<le> k \<Longrightarrow> framed (''event: random\<newline>'', data_line [(''number'', JSNumber k)])"
  using framedI [of "''random''" "JSON_stringify [(''number'', JSNumber k)]", OF _ _ parse_number]
  by (simp add: data_line_def JSON_stringify_def quote_def quote_char_def show_int_def
      show_nat_no_newline)

lemma framed_connected:
  "framed (''event: connected\<newline>'', data_line [(''message'', JSString ''Connected to event stream'')])"
  using framedI [of "''connected''"
      "JSON_stringify [(''message'', JSString ''Connected to event stream'')]", OF _ _ parse_message]
  by (simp add: data_line_def JSON_stringify_def quote_def quote_char_def)

lemma blocks_concat_chunks: "blocks (concat (map chunks_of xs)) =
    map (\<lambda>x. (hd (chunks_of x), hd (tl (chunks_of x)))) xs"
proof (induction xs)
  case Nil
  show ?case by simp
next
  case (Cons x xs)
  then show ?case by (cases x) simp
qed

lemma Math_floor_nonneg: "0 \<le> Math_floor k"
  by (simp add: Math_floor_def)

lemma framed_sends:
  assumes "x \<in> set (sends (run evs) e c)"
  shows "framed (hd (chunks_of x), hd (tl (chunks_of x)))"
proof (cases e)
  case Request
  with assms show ?thesis by (auto simp: sends_def framed_connected split: if_splits)
next
  case (TimerFire tid u)
  show ?thesis
  proof (cases "timers (run evs) tid")
    case None
    with assms TimerFire show ?thesis by (simp add: sends_def)
  next
    case (Some p)
    obtain cb ms where p: "p = (cb, ms)" by (cases p)
    show ?thesis
    proof (cases cb)
      case (counterCallback cid)
      have "0 \<le> counter_of (run evs) cid + 1" using counter_nonneg [of evs cid] by simp
      with assms TimerFire Some p counterCallback show ?thesis
        by (auto simp: sends_def framed_count split: if_splits)
    next
      case (randomCallback cid)
      with assms TimerFire Some p show ?thesis
        by (auto simp: sends_def framed_number Math_floor_nonneg split: if_splits)
    qed
  qed
next
  case (PeerClose cid)
  with assms show ?thesis by (simp add: sends_def)
qed

lemma framed_body:
  "list_all framed (blocks (body (run evs) c)) \<and>
   body (run evs) c = concat (map (\<lambda>b. [fst b, snd b]) (blocks (body (run evs) c)))"
proof (induction evs rule: rev_induct)
  case Nil
  show ?case by (simp add: run_def init_server_def body_def)
next
  case (snoc e evs)
  let ?new = "concat (map chunks_of (sends (run evs) e c))"
  have b: "blocks (body (step (run evs) e) c) = blocks (body (run evs) c) @ blocks ?new"
    by (simp add: body_step [OF wf_run] blocks_append even_body)
  have f: "list_all framed (blocks ?new)"
    using framed_sends [of _ evs e c] by (simp add: blocks_concat_chunks list_all_iff)
  have "concat (map (\<lambda>b. [fst b, snd b]) (blocks (concat (map chunks_of xs)))) =
      concat (map chunks_of xs)" for xs
  proof (induction xs)
    case Nil
    show ?case by simp
  next
    case (Cons x xs)
    then show ?case by (cases x) simp
  qed
  with snoc f show ?case by (simp add: run_snoc b) (simp add: body_step [OF wf_run])
qed

subsection \<open>Listeners and dispatch\<close>

lemmas listener_defs = connected_listener_def counter_listener_def random_listener_def

lemmas client_eval = dispatch_def rerender_def unmount_def effect_def effect_deps_def
  first_render_def report_def onopen_def onerror_def cleanup_def mount_def
  view_def forget_uncaught_def listener_defs

lemma get_prop_cases:
  obtains "get_prop d name = Inl TypeError" | "get_prop d name = Inr None"
  | v where "get_prop d name = Inr (Some v)"
  by (cases d; cases "get_prop d name") auto

lemma forget_deliver:
  "forget_uncaught (deliver (forget_uncaught c) ev) = forget_uncaught (deliver c ev)"
proof (cases ev)
  case Open
  then show ?thesis by (simp add: forget_uncaught_def onopen_def)
next
  case Error
  then show ?thesis by (simp add: forget_uncaught_def onerror_def)
next
  case (Named name data)
  have 5: "forget_uncaught (onopen (forget_uncaught c)) = forget_uncaught (onopen c)"
    by (simp add: forget_uncaught_def onopen_def)
  have 6: "forget_uncaught (onerror (forget_uncaught c)) = forget_uncaught (onerror c)"
    by (simp add: forget_uncaught_def onerror_def)
  show ?thesis
  proof (cases "JSON_parse data")
    case None
    with Named 5 6 show ?thesis by (simp add: forget_uncaught_def report_def listener_defs)
  next
    case (Some d)
    have 1: "forget_uncaught (report (forget_uncaught c) (connected_listener data (forget_uncaught c))) =
        forget_uncaught (report c (connected_listener data c))"
      by (cases d "''message''" rule: get_prop_cases)
        (simp_all add: connected_listener_def forget_uncaught_def report_def Some)
    have 2: "forget_uncaught (report (forget_uncaught c) (counter_listener data (forget_uncaught c))) =
        forget_uncaught (report c (counter_listener data c))"
      by (cases d "''count''" rule: get_prop_cases)
        (simp_all add: counter_listener_def forget_uncaught_def report_def Some)
    have 3: "forget_uncaught (report (forget_uncaught c) (random_listener data (forget_uncaught c))) =
        forget_uncaught (report c (random_listener data c))"
      by (cases d "''number''" rule: get_prop_cases)
        (simp_all add: random_listener_def forget_uncaught_def report_def Some)
    have 4: "forget_uncaught (forget_uncaught c) = forget_uncaught c"
      by (simp add: forget_uncaught_def)
    from Named 1 2 3 4 5 6 show ?thesis by simp
  qed
qed

lemma forget_rerender:
  "forget_uncaught (rerender (forget_uncaught a) (forget_uncaught b)) =
   forget_uncaught (rerender a b)"
  by (simp add: rerender_def unmount_def cleanup_def effect_def effect_deps_def view_def
      forget_uncaught_def)

lemma forget_dispatch:
  "forget_uncaught (dispatch (forget_uncaught c) ev) = forget_uncaught (dispatch c ev)"
proof (cases "es_closed c")
  case True
  then show ?thesis by (simp add: dispatch_def forget_uncaught_def)
next
  case False
  have i: "forget_uncaught (forget_uncaught c) = forget_uncaught c"
    by (simp add: forget_uncaught_def)
  have "forget_uncaught (rerender (forget_uncaught c) (deliver (forget_uncaught c) ev)) =
      forget_uncaught (rerender (forget_uncaught (forget_uncaught c))
        (forget_uncaught (deliver (forget_uncaught c) ev)))"
    by (rule forget_rerender [symmetric])
  also have "\<dots> = forget_uncaught (rerender (forget_uncaught c) (forget_uncaught (deliver c ev)))"
    by (simp only: i forget_deliver)
  also have "\<dots> = forget_uncaught (rerender c (deliver c ev))"
    by (rule forget_rerender)
  finally show ?thesis using False by (simp add: dispatch_def forget_uncaught_def)
qed

lemma forget_foldl:
  "forget_uncaught (foldl dispatch (forget_uncaught c) evs) = forget_uncaught (foldl dispatch c evs)"
proof (induction evs arbitrary: c)
  case Nil
  show ?case by (simp add: forget_uncaught_def)
next
  case (Cons ev evs)
  have "forget_uncaught (foldl dispatch (dispatch (forget_uncaught c) ev) evs) =
      forget_uncaught (foldl dispatch (forget_uncaught (dispatch (forget_uncaught c) ev)) evs)"
    by (rule Cons.IH [symmetric])
  also have "\<dots> = forget_uncaught (foldl dispatch (forget_uncaught (dispatch c ev)) evs)"
    by (simp only: forget_dispatch)
  also have "\<dots> = forget_uncaught (foldl dispatch (dispatch c ev) evs)"
    by (rule Cons.IH)
  finally show ?case by simp
qed

lemma malformed_dispatch:
  assumes "JSON_parse data = None" and "name = ''counter'' \<or> name = ''random''"
  shows "forget_uncaught (dispatch c (Named name data)) = forget_uncaught c"
  using assms
  by (auto simp: dispatch_def rerender_def view_def report_def listener_defs forget_uncaught_def)

lemma malformed_skipped:
  assumes "JSON_parse data = None" and "name = ''counter'' \<or> name = ''random''"
  shows "forget_uncaught (foldl dispatch c (evs1 @ Named name data # evs2)) =
         forget_uncaught (foldl dispatch c (evs1 @ evs2))"
proof -
  let ?c1 = "foldl dispatch c evs1"
  have "forget_uncaught (foldl dispatch (dispatch ?c1 (Named name data)) evs2) =
      forget_uncaught (foldl dispatch (forget_uncaught (dispatch ?c1 (Named name data))) evs2)"
    by (rule forget_foldl [symmetric])
  also have "\<dots> = forget_uncaught (foldl dispatch (forget_uncaught ?c1) evs2)"
    by (simp only: malformed_dispatch [OF assms])
  also have "\<dots> = forget_uncaught (foldl dispatch ?c1 evs2)"
    by (rule forget_foldl)
  finally show ?thesis by simp
qed

lemma closed_foldl: "es_closed c \<Longrightarrow> foldl dispatch c evs = c"
  by (induction evs) (simp_all add: dispatch_def)

subsection \<open>The life of the component\<close>

lemma deliver_keeps:
  "mounted (deliver c ev) = mounted c" "es_closed (deliver c ev) = es_closed c"
proof -
  have "mounted (deliver c ev) = mounted c \<and> es_closed (deliver c ev) = es_closed c"
  proof (cases ev)
    case Open
    then show ?thesis by (simp add: onopen_def)
  next
    case Error
    then show ?thesis by (simp add: onerror_def)
  next
    case (Named name data)
    then show ?thesis
      by (auto simp: onopen_def onerror_def report_def listener_defs
          split: option.splits sum.splits)
  qed
  then show "mounted (deliver c ev) = mounted c" "es_closed (deliver c ev) = es_closed c"
    by simp_all
qed

lemma rerender_cases:
  "rerender c c' = c' \<or>
   rerender c c' = unmount (c'\<lparr>uncaught := uncaught c' @ [RenderError]\<rparr>) \<and>
     view c' \<noteq> view c \<and> \<not> (renderable (counter_st c') \<and> renderable (randomNumber c'))"
  by (simp add: rerender_def effect_deps_def)

lemma rerender_renderable:
  assumes "renderable (counter_st c')" and "renderable (randomNumber c')"
  shows "rerender c c' = c'"
  using assms by (simp add: rerender_def effect_deps_def)

lemma rerender_same_view: "view c' = view c \<Longrightarrow> rerender c c' = c'"
  by (simp add: rerender_def)

lemma unmounted_steps:
  "es_closed c \<Longrightarrow> \<not> mounted c \<Longrightarrow> foldl component_step c evs = c"
proof (induction evs)
  case Nil
  show ?case by simp
next
  case (Cons e evs)
  then have "component_step c e = c"
    by (cases e) (simp_all add: dispatch_def unmount_def)
  with Cons show ?case by simp
qed

lemma step_open:
  assumes "\<not> es_closed c \<longrightarrow>
           mounted c \<and> renderable (counter_st c) \<and> renderable (randomNumber c)"
  shows "\<not> es_closed (component_step c e) \<longrightarrow>
         mounted (component_step c e) \<and> renderable (counter_st (component_step c e)) \<and>
         renderable (randomNumber (component_step c e))"
proof (cases e)
  case Unmount
  with assms show ?thesis by (auto simp: unmount_def cleanup_def)
next
  case (Delivered ev)
  show ?thesis
  proof (cases "es_closed c")
    case True
    with Delivered show ?thesis by (simp add: dispatch_def)
  next
    case False
    with assms have m: "mounted c" and r: "renderable (counter_st c)" "renderable (randomNumber c)"
      by simp_all
    let ?d = "deliver c ev"
    have k: "mounted ?d" "\<not> es_closed ?d"
      using m False by (simp_all add: deliver_keeps)
    have s: "component_step c e = rerender c ?d"
      using Delivered False by (simp add: dispatch_def)
    show ?thesis
    proof (cases "view ?d = view c")
      case True
      then have "counter_st ?d = counter_st c" "randomNumber ?d = randomNumber c"
        by (simp_all add: view_def)
      with True r k s show ?thesis by (simp add: rerender_same_view)
    next
      case False
      show ?thesis
      proof (cases "renderable (counter_st ?d) \<and> renderable (randomNumber ?d)")
        case True
        with k s show ?thesis by (simp add: rerender_renderable)
      next
        case False
        with \<open>view ?d \<noteq> view c\<close> k s show ?thesis
          by (simp add: rerender_def unmount_def cleanup_def)
      qed
    qed
  qed
qed

lemma steps_open:
  "\<not> es_closed (foldl component_step mount evs) \<longrightarrow>
   mounted (foldl component_step mount evs) \<and>
   renderable (counter_st (foldl component_step mount evs)) \<and>
   renderable (randomNumber (foldl component_step mount evs))"
proof (induction evs rule: rev_induct)
  case Nil
  show ?case by (simp add: mount_def effect_def first_render_def)
next
  case (snoc e evs)
  from step_open [OF snoc.IH, of e] show ?case by simp
qed

lemma unmount_step:
  assumes "\<not> es_closed c \<longrightarrow> mounted c"
  shows "es_closed (unmount c)" "\<not> mounted (unmount c)"
  using assms by (auto simp: unmount_def cleanup_def)

lemma named_deliver_cells:
  assumes "name = ''connected'' \<or> name = ''counter'' \<or> name = ''random''"
  shows "connectionStatus (deliver c (Named name data)) = connectionStatus c"
    and "error (deliver c (Named name data)) = error c"
    and "name \<noteq> ''counter'' \<Longrightarrow> counter_st (deliver c (Named name data)) = counter_st c"
    and "name \<noteq> ''random'' \<Longrightarrow> randomNumber (deliver c (Named name data)) = randomNumber c"
  using assms
  by (auto simp: report_def listener_defs split: option.splits sum.splits)

lemma connected_deliver:
  "view (deliver c (Named ''connected'' data)) = view c"
  by (auto simp: view_def report_def connected_listener_def split: option.splits sum.splits)

lemma connected_dispatch:
  "dispatch c (Named ''connected'' data) =
     (if es_closed c then c else deliver c (Named ''connected'' data))"
  using connected_deliver [of c data] by (simp add: dispatch_def rerender_same_view)

lemma dispatch_mounted:
  assumes "mounted (dispatch c ev)"
  shows "dispatch c ev = (if es_closed c then c else deliver c ev)"
proof (cases "es_closed c")
  case True
  then show ?thesis by (simp add: dispatch_def)
next
  case False
  then have s: "dispatch c ev = rerender c (deliver c ev)" by (simp add: dispatch_def)
  from rerender_cases [of c "deliver c ev"] have "rerender c (deliver c ev) = deliver c ev"
  proof
    assume "rerender c (deliver c ev) = deliver c ev"
    then show ?thesis .
  next
    assume "rerender c (deliver c ev) =
        unmount (deliver c ev\<lparr>uncaught := uncaught (deliver c ev) @ [RenderError]\<rparr>) \<and>
        view (deliver c ev) \<noteq> view c \<and>
        \<not> (renderable (counter_st (deliver c ev)) \<and> renderable (randomNumber (deliver c ev)))"
    with s assms have False
      by (auto simp: unmount_def cleanup_def split: if_splits)
    then show ?thesis ..
  qed
  with s False show ?thesis by simp
qed

lemma dispatch_unmounts:
  assumes "mounted c" and "\<not> mounted (dispatch c ev)"
  shows "\<not> es_closed c" and "es_closed (dispatch c ev)"
    and "view (deliver c ev) \<noteq> view c"
    and "\<not> (renderable (counter_st (deliver c ev)) \<and> renderable (randomNumber (deliver c ev)))"
    and "dispatch c ev =
      (deliver c ev)\<lparr>uncaught := uncaught (deliver c ev) @ [RenderError],
        es_closed := True, mounted := False\<rparr>"
proof -
  from assms have o: "\<not> es_closed c" by (auto simp: dispatch_def)
  then have s: "dispatch c ev = rerender c (deliver c ev)" by (simp add: dispatch_def)
  from assms have m: "mounted (deliver c ev)" by (simp add: deliver_keeps)
  from rerender_cases [of c "deliver c ev"] s m assms
  have u: "dispatch c ev = unmount (deliver c ev\<lparr>uncaught := uncaught (deliver c ev) @ [RenderError]\<rparr>)"
    and v: "view (deliver c ev) \<noteq> view c"
    and r: "\<not> (renderable (counter_st (deliver c ev)) \<and> renderable (randomNumber (deliver c ev)))"
    by auto
  from o show "\<not> es_closed c" .
  from u m show "es_closed (dispatch c ev)" by (simp add: unmount_def cleanup_def)
  from v show "view (deliver c ev) \<noteq> view c" .
  from r show "\<not> (renderable (counter_st (deliver c ev)) \<and> renderable (randomNumber (deliver c ev)))" .
  from u m show "dispatch c ev =
      (deliver c ev)\<lparr>uncaught := uncaught (deliver c ev) @ [RenderError],
        es_closed := True, mounted := False\<rparr>"
    by (simp add: unmount_def cleanup_def)
qed


section \<open>The claims about the server\<close>

text \<open>
  C1. On every request's response stream the data lines of the \<open>counter\<close> events are
  exactly those of the counts 1, 2, 3, ..., up to the current value of that request's
  counter, and \<open>JSON.parse\<close> reads these counts back from them. The counter of a new
  request is 0, and a firing of the counter interval increments it first and then writes
  the new value.
\<close>

theorem counter_events_count_from_one:
  "data_of ''counter'' (body (run evs) cid) =
     map (\<lambda>k. data_line [(''count'', JSNumber k)]) [1..counter_of (run evs) cid] \<and>
   map payload_of (data_of ''counter'' (body (run evs) cid)) =
     map (\<lambda>k. Some (JObj [(utf16 ''count'', JNum (of_int k))])) [1..counter_of (run evs) cid] \<and>
   counter_of (step (run evs) Request) (next_conn (run evs)) = 0 \<and>
   (timers (run evs) tid = Some (counterCallback cid, ms) \<longrightarrow>
      counter_of (step (run evs) (TimerFire tid u)) cid = counter_of (run evs) cid + 1 \<and>
      body (step (run evs) (TimerFire tid u)) cid =
        body (run evs) cid @
        [''event: counter\<newline>'', data_line [(''count'', JSNumber (counter_of (run evs) cid + 1))]])"
proof (intro conjI impI)
  show "data_of ''counter'' (body (run evs) cid) =
     map (\<lambda>k. data_line [(''count'', JSNumber k)]) [1..counter_of (run evs) cid]"
    by (rule counter_data)
  show "map payload_of (data_of ''counter'' (body (run evs) cid)) =
     map (\<lambda>k. Some (JObj [(utf16 ''count'', JNum (of_int k))])) [1..counter_of (run evs) cid]"
    by (simp add: counter_data payload_count)
  show "counter_of (step (run evs) Request) (next_conn (run evs)) = 0"
    by (simp add: counter_of_Request)
next
  assume t: "timers (run evs) tid = Some (counterCallback cid, ms)"
  then show "counter_of (step (run evs) (TimerFire tid u)) cid = counter_of (run evs) cid + 1"
    by (simp add: counter_of_step [OF wf_run])
  from t show "body (step (run evs) (TimerFire tid u)) cid =
        body (run evs) cid @
        [''event: counter\<newline>'', data_line [(''count'', JSNumber (counter_of (run evs) cid + 1))]]"
    by (simp add: body_step [OF wf_run] sends_def)
qed

theorem counter_events_count_from_one_witness:
  "timers (run [Request, TimerFire 0 0]) 0 = Some (counterCallback 0, 1000) \<and>
   data_of ''counter'' (body (run [Request, TimerFire 0 0]) 0) = [''data: {\"count\":1}\<newline>\<newline>''] \<and>
   body (step (run [Request, TimerFire 0 0]) (TimerFire 0 0)) 0 =
     body (run [Request, TimerFire 0 0]) 0 @
     [''event: counter\<newline>'', ''data: {\"count\":2}\<newline>\<newline>'']"
proof -
  have h: "timers (run [Request, TimerFire 0 0]) 0 = Some (counterCallback 0, 1000)"
    by (simp add: server_eval)
  have c: "counter_of (run [Request, TimerFire 0 0]) 0 = 1"
    by (simp add: server_eval)
  from counter_events_count_from_one [of "[Request, TimerFire 0 0]" 0 0 1000 0] h c
  show ?thesis by (simp add: text_eval)
qed

text \<open>
  C2. When the close of a request's connection is notified, the listener clears both of
  the request's intervals, the counter interval and the random interval. From then on,
  whatever events follow, neither timer is in the runtime's table, no timer in the table
  has a callback of this request, and nothing more is written to its response.
\<close>

theorem close_cancels_both_emitters:
  assumes "conns (run evs) cid = Some c"
  shows "\<exists>t1 t2. counterInterval c = Some t1 \<and> randomInterval c = Some t2 \<and>
           (\<not> close_emitted c \<longrightarrow>
              trace (step (run evs) (PeerClose cid)) =
                trace (run evs) @ [ClearInterval t1, ClearInterval t2]) \<and>
           timers (run (evs @ PeerClose cid # evs')) t1 = None \<and>
           timers (run (evs @ PeerClose cid # evs')) t2 = None \<and>
           (\<forall>tid cb ms. timers (run (evs @ PeerClose cid # evs')) tid = Some (cb, ms) \<longrightarrow>
              cb_conn cb \<noteq> cid) \<and>
           body (run (evs @ PeerClose cid # evs')) cid = body (run evs) cid"
proof -
  from close_main [OF assms, of evs'] obtain t1 t2 where
    t: "counterInterval c = Some t1" "randomInterval c = Some t2"
    and r: "timers (run (evs @ PeerClose cid # evs')) t1 = None"
      "timers (run (evs @ PeerClose cid # evs')) t2 = None"
      "\<forall>tid cb ms. timers (run (evs @ PeerClose cid # evs')) tid = Some (cb, ms) \<longrightarrow>
         cb_conn cb \<noteq> cid"
      "body (run (evs @ PeerClose cid # evs')) cid = body (run evs) cid"
    by blast
  from wf_listener [OF wf_run assms] have l: "close_listener c" by simp
  have "\<not> close_emitted c \<longrightarrow>
      trace (step (run evs) (PeerClose cid)) = trace (run evs) @ [ClearInterval t1, ClearInterval t2]"
    using step_PeerClose_eq [OF assms _ l t] by simp
  with t r show ?thesis by blast
qed

theorem close_cancels_both_emitters_witness:
  "conns (run [Request, TimerFire 0 0]) 0 =
     Some \<lparr>counter = 1, counterInterval = Some 0, randomInterval = Some 1,
           close_listener = True, close_emitted = False\<rparr> \<and>
   trace (step (run [Request, TimerFire 0 0]) (PeerClose 0)) =
     trace (run [Request, TimerFire 0 0]) @ [ClearInterval 0, ClearInterval 1] \<and>
   timers (run ([Request, TimerFire 0 0] @ PeerClose 0 # [TimerFire 0 0, TimerFire 1 0])) 0 = None \<and>
   timers (run ([Request, TimerFire 0 0] @ PeerClose 0 # [TimerFire 0 0, TimerFire 1 0])) 1 = None \<and>
   body (run ([Request, TimerFire 0 0] @ PeerClose 0 # [TimerFire 0 0, TimerFire 1 0])) 0 =
     body (run [Request, TimerFire 0 0]) 0"
proof -
  have h: "conns (run [Request, TimerFire 0 0]) 0 =
     Some \<lparr>counter = 1, counterInterval = Some 0, randomInterval = Some 1,
           close_listener = True, close_emitted = False\<rparr>"
    by (simp add: server_eval)
  from close_cancels_both_emitters [OF h, of "[TimerFire 0 0, TimerFire 1 0]"] h
  show ?thesis by auto
qed

text \<open>
  C3. The first event on every request's response stream is the \<open>connected\<close> event, whose
  \<open>message\<close> is not empty; so it precedes every \<open>counter\<close> and \<open>random\<close> event. The two
  chunks of that event are all that has been written to the response when the first of
  the request's intervals is set.
\<close>

theorem connected_event_first:
  assumes "cid < next_conn (run evs)"
  shows "take 2 (body (run evs) cid) =
           [''event: connected\<newline>'',
            data_line [(''message'', JSString ''Connected to event stream'')]] \<and>
         0 < length ''Connected to event stream'' \<and>
         (\<exists>e \<in> set (trace (run evs)). starts cid e) \<and>
         writes cid (takeWhile (\<lambda>e. \<not> starts cid e) (trace (run evs))) =
           [''event: connected\<newline>'',
            data_line [(''message'', JSString ''Connected to event stream'')]]"
  using handshake [OF assms] by (simp add: connected_frame_def)

theorem connected_event_first_witness:
  "(0::nat) < next_conn (run [Request, TimerFire 1 0, TimerFire 0 0]) \<and>
   take 2 (body (run [Request, TimerFire 1 0, TimerFire 0 0]) 0) =
     [''event: connected\<newline>'',
      ''data: {\"message\":\"Connected to event stream\"}\<newline>\<newline>''] \<and>
   writes 0 (takeWhile (\<lambda>e. \<not> starts 0 e) (trace (run [Request, TimerFire 1 0, TimerFire 0 0]))) =
     [''event: connected\<newline>'',
      ''data: {\"message\":\"Connected to event stream\"}\<newline>\<newline>'']"
proof -
  have h: "(0::nat) < next_conn (run [Request, TimerFire 1 0, TimerFire 0 0])"
    by (simp add: server_eval)
  from connected_event_first [OF h] h show ?thesis by (simp add: text_eval)
qed

text \<open>
  C5. Each request has its own counter, a variable of its handler invocation. The firing
  of another request's timer, or the close of another request's connection, has no effect
  on a request's counter and response stream, neither at once nor after any further
  events: the run with the foreign event and the run without it give the request the same
  stream. A firing of another request's counter interval is such a foreign event, and
  increments that other counter. A new request starts its counter at 0 and leaves the
  earlier requests as they were. The \<open>counter\<close> events of every request carry the counts
  1, 2, 3, ... up to its own counter.
\<close>

theorem counters_are_independent:
  "(foreign (run evs) c e \<longrightarrow>
      body (run (evs @ e # evs')) c = body (run (evs @ evs')) c \<and>
      counter_of (run (evs @ e # evs')) c = counter_of (run (evs @ evs')) c) \<and>
   (c' \<noteq> c \<and> timers (run evs) tid = Some (counterCallback c', ms) \<longrightarrow>
      foreign (run evs) c (TimerFire tid u) \<and>
      counter_of (step (run evs) (TimerFire tid u)) c' = counter_of (run evs) c' + 1 \<and>
      counter_of (step (run evs) (TimerFire tid u)) c = counter_of (run evs) c) \<and>
   (c < next_conn (run evs) \<longrightarrow>
      counter_of (step (run evs) Request) c = counter_of (run evs) c \<and>
      body (step (run evs) Request) c = body (run evs) c \<and>
      counter_of (step (run evs) Request) (next_conn (run evs)) = 0) \<and>
   data_of ''counter'' (body (run evs) c) =
     map (\<lambda>k. data_line [(''count'', JSNumber k)]) [1..counter_of (run evs) c]"
proof (intro conjI impI)
  assume "foreign (run evs) c e"
  then have "agree c (run (evs @ e # evs')) (run (evs @ evs'))" by (rule foreign_run)
  then show "body (run (evs @ e # evs')) c = body (run (evs @ evs')) c"
    and "counter_of (run (evs @ e # evs')) c = counter_of (run (evs @ evs')) c"
    by (simp_all add: agree_def counter_of_def)
next
  assume a: "c' \<noteq> c \<and> timers (run evs) tid = Some (counterCallback c', ms)"
  then show "foreign (run evs) c (TimerFire tid u)" by simp
  from a show "counter_of (step (run evs) (TimerFire tid u)) c' = counter_of (run evs) c' + 1"
    by (simp add: counter_of_step [OF wf_run])
  from a show "counter_of (step (run evs) (TimerFire tid u)) c = counter_of (run evs) c"
    by (auto simp: counter_of_step [OF wf_run])
next
  assume "c < next_conn (run evs)"
  then show "counter_of (step (run evs) Request) c = counter_of (run evs) c"
    and "body (step (run evs) Request) c = body (run evs) c"
    by (simp_all add: counter_of_Request body_Request)
next
  show "counter_of (step (run evs) Request) (next_conn (run evs)) = 0"
    by (simp add: counter_of_Request)
qed (rule counter_data)

theorem counters_are_independent_witness:
  "foreign (run [Request, TimerFire 0 0, TimerFire 0 0, Request]) 1 (TimerFire 0 0) \<and>
   (0::nat) \<noteq> 1 \<and>
   timers (run [Request, TimerFire 0 0, TimerFire 0 0, Request]) 0 = Some (counterCallback 0, 1000) \<and>
   (1::nat) < next_conn (run [Request, TimerFire 0 0, TimerFire 0 0, Request]) \<and>
   data_of ''counter''
     (body (run ([Request, TimerFire 0 0, TimerFire 0 0, Request] @ TimerFire 0 0 # [TimerFire 2 0])) 1) =
     [''data: {\"count\":1}\<newline>\<newline>''] \<and>
   counter_of (step (run [Request, TimerFire 0 0, TimerFire 0 0, Request]) (TimerFire 0 0)) 0 = 3 \<and>
   counter_of (step (run [Request, TimerFire 0 0, TimerFire 0 0, Request]) (TimerFire 0 0)) 1 = 0 \<and>
   counter_of (step (run [Request, TimerFire 0 0, TimerFire 0 0, Request]) Request) 2 = 0"
proof -
  let ?evs = "[Request, TimerFire 0 0, TimerFire 0 0, Request]"
  have h1: "foreign (run ?evs) 1 (TimerFire 0 0)" by (simp add: server_eval)
  have h2: "(0::nat) \<noteq> 1 \<and> timers (run ?evs) 0 = Some (counterCallback 0, 1000)"
    by (simp add: server_eval)
  have h3: "(1::nat) < next_conn (run ?evs)" by (simp add: server_eval)
  have n: "next_conn (run ?evs) = 2" by (simp add: server_eval)
  have c0: "counter_of (run ?evs) 0 = 2" by (simp add: server_eval)
  have c1: "counter_of (run ?evs) 1 = 0" by (simp add: server_eval)
  have d: "data_of ''counter'' (body (run (?evs @ [TimerFire 2 0])) 1) =
      [''data: {\"count\":1}\<newline>\<newline>'']"
    by (simp add: server_eval text_eval)
  from counters_are_independent [of ?evs 1 "TimerFire 0 0" "[TimerFire 2 0]" 0 0 1000 0]
    h1 h2 h3 n c0 c1 d
  show ?thesis by simp
qed

text \<open>
  C6. When every value returned by \<open>Math.random()\<close> is a binary64 value in \<open>[0, 1)\<close>, the
  data line of every \<open>random\<close> event is that of an integer \<open>number\<close> from 0 to 99, which
  \<open>JSON.parse\<close> reads back from it. Each
  firing of the random interval draws its own value and writes one event, whose number is
  computed from that value alone.
\<close>

theorem random_number_in_range:
  assumes "list_all sample_ok evs"
  shows "(\<forall>d \<in> set (data_of ''random'' (body (run evs) cid)).
            \<exists>k \<in> {0..99}. d = data_line [(''number'', JSNumber k)] \<and>
              payload_of d = Some (JObj [(utf16 ''number'', JNum (of_int k))])) \<and>
         (unit_sample u \<and> timers (run evs) tid = Some (randomCallback cid, ms) \<longrightarrow>
            Math_floor (times_100 u) \<in> {0..99} \<and>
            body (step (run evs) (TimerFire tid u)) cid =
              body (run evs) cid @
              [''event: random\<newline>'', data_line [(''number'', JSNumber (Math_floor (times_100 u)))]])"
proof (intro conjI impI ballI)
  fix d
  assume "d \<in> set (data_of ''random'' (body (run evs) cid))"
  with random_data [OF assms, of cid] obtain k where
    k: "k \<in> {0..99}" "d = data_line [(''number'', JSNumber k)]" by blast
  then have "payload_of d = Some (JObj [(utf16 ''number'', JNum (of_int k))])"
    by (simp add: payload_number)
  with k show "\<exists>k \<in> {0..99}. d = data_line [(''number'', JSNumber k)] \<and>
      payload_of d = Some (JObj [(utf16 ''number'', JNum (of_int k))])" by blast
next
  assume a: "unit_sample u \<and> timers (run evs) tid = Some (randomCallback cid, ms)"
  then show "Math_floor (times_100 u) \<in> {0..99}" by (intro floor_times_100) simp
  from a show "body (step (run evs) (TimerFire tid u)) cid =
      body (run evs) cid @
      [''event: random\<newline>'', data_line [(''number'', JSNumber (Math_floor (times_100 u)))]]"
    by (simp add: body_step [OF wf_run] sends_def)
qed

theorem random_number_in_range_witness:
  "list_all sample_ok [Request, TimerFire 0 0] \<and>
   unit_sample (5134103575202365 * 2 ^ 1021) \<and>
   timers (run [Request, TimerFire 0 0]) 1 = Some (randomCallback 0, 2000) \<and>
   body (step (run [Request, TimerFire 0 0]) (TimerFire 1 (5134103575202365 * 2 ^ 1021))) 0 =
     body (run [Request, TimerFire 0 0]) 0 @
     [''event: random\<newline>'', ''data: {\"number\":56}\<newline>\<newline>'']"
proof -
  have z: "unit_sample 0" by (simp add: unit_sample_def binary64_def)
  then have h1: "list_all sample_ok [Request, TimerFire 0 0]" by simp
  have h2: "timers (run [Request, TimerFire 0 0]) 1 = Some (randomCallback 0, 2000)"
    by (simp add: server_eval)
  from random_number_in_range [OF h1, of 0 "5134103575202365 * 2 ^ 1021" 1 2000]
    h1 h2 sample_057 floor_057
  show ?thesis by (simp add: text_eval del: power_numeral)
qed


section \<open>The claims about the wire format and the client\<close>

text \<open>
  C7. Every event written to a response is one block of the stream: the line
  \<open>event: name\<close>, the line \<open>data: json\<close> and a blank line, where the name and the data hold
  no line break and the data is the text of one JSON object. The chunks written to a
  response are exactly the chunks of these blocks, in order.
\<close>

theorem events_are_framed:
  "list_all framed (blocks (body (run evs) cid)) \<and>
   body (run evs) cid = concat (map (\<lambda>b. [fst b, snd b]) (blocks (body (run evs) cid)))"
  by (rule framed_body)

theorem events_are_framed_witness:
  "blocks (body (run [Request, TimerFire 0 0]) 0) =
     [(''event: connected\<newline>'', ''data: {\"message\":\"Connected to event stream\"}\<newline>\<newline>''),
      (''event: counter\<newline>'', ''data: {\"count\":1}\<newline>\<newline>'')] \<and>
   framed (''event: counter\<newline>'', ''data: {\"count\":1}\<newline>\<newline>'') \<and>
   ''event: counter\<newline>'' @ ''data: {\"count\":1}\<newline>\<newline>'' = sse_block ''counter'' ''{\"count\":1}''"
proof -
  have b: "blocks (body (run [Request, TimerFire 0 0]) 0) =
     [(''event: connected\<newline>'', ''data: {\"message\":\"Connected to event stream\"}\<newline>\<newline>''),
      (''event: counter\<newline>'', ''data: {\"count\":1}\<newline>\<newline>'')]"
    by (simp add: server_eval text_eval)
  from events_are_framed [of "[Request, TimerFire 0 0]" 0] b
  show ?thesis by (simp add: sse_block_def)
qed

text \<open>
  C4, as the code has it. When the data of a \<open>counter\<close> or \<open>random\<close> event is not valid
  JSON, the listener throws the \<open>SyntaxError\<close> of \<open>JSON.parse\<close>, which it does not catch.
  The exception changes nothing in the component's state, and the events that follow on
  the same subscription are handled as if the malformed event had not arrived: apart from
  the record of the reported exception, the state is the same with and without it.
\<close>

theorem malformed_frame_is_skipped:
  assumes "JSON_parse data = None" and "name = ''counter'' \<or> name = ''random''"
  shows "counter_listener data c = Inl SyntaxError \<and>
         random_listener data c = Inl SyntaxError \<and>
         forget_uncaught (foldl dispatch c (evs1 @ Named name data # evs2)) =
           forget_uncaught (foldl dispatch c (evs1 @ evs2)) \<and>
         view (foldl dispatch c (evs1 @ Named name data # evs2)) =
           view (foldl dispatch c (evs1 @ evs2))"
proof -
  have v: "view x = view (forget_uncaught x)" for x
    by (simp add: view_def forget_uncaught_def)
  have "view (foldl dispatch c (evs1 @ Named name data # evs2)) =
      view (forget_uncaught (foldl dispatch c (evs1 @ Named name data # evs2)))"
    by (rule v)
  also have "\<dots> = view (forget_uncaught (foldl dispatch c (evs1 @ evs2)))"
    by (simp only: malformed_skipped [OF assms])
  also have "\<dots> = view (foldl dispatch c (evs1 @ evs2))"
    by (rule v [symmetric])
  finally show ?thesis
    using assms(1) malformed_skipped [OF assms, of c evs1 evs2]
    by (simp add: listener_defs)
qed

theorem malformed_frame_is_skipped_witness:
  "JSON_parse (utf16 ''{\"count\":'') = None \<and>
   counter_listener (utf16 ''{\"count\":'') mount = Inl SyntaxError \<and>
   view (foldl dispatch mount
     ([Open, Named ''counter'' (utf16 ''{\"count\":1}'')] @
      Named ''counter'' (utf16 ''{\"count\":'') #
      [Named ''counter'' (utf16 ''{\"count\":3}'')])) =
   (''Connected'', JNum 3, JNum 0, None)"
proof -
  have h: "JSON_parse (utf16 ''{\"count\":'') = None" by (simp add: json_eval)
  have n: "''counter'' = ''counter'' \<or> ''counter'' = ''random''" by simp
  have g: "view (foldl dispatch mount
      ([Open, Named ''counter'' (utf16 ''{\"count\":1}'')] @
       [Named ''counter'' (utf16 ''{\"count\":3}'')])) = (''Connected'', JNum 3, JNum 0, None)"
    by (simp add: client_eval json_eval)
  from malformed_frame_is_skipped [OF h n, of mount
      "[Open, Named ''counter'' (utf16 ''{\"count\":1}'')]"
      "[Named ''counter'' (utf16 ''{\"count\":3}'')]"] h g
  show ?thesis by simp
qed

text \<open>
  C4, as the claim states it, fails: on a \<open>counter\<close> event whose data is the truncated text
  \<open>{"count":\<close> the listener throws, and the exception is reported uncaught.
\<close>

theorem malformed_counter_frame_throws:
  "JSON_parse (utf16 ''{\"count\":'') = None \<and>
   counter_listener (utf16 ''{\"count\":'') mount = Inl SyntaxError \<and>
   uncaught (dispatch mount (Named ''counter'' (utf16 ''{\"count\":''))) = [SyntaxError]"
  by (simp add: client_eval json_eval)

text \<open>
  C8. The error handler sets the connection status to \<open>Error - Retrying\<close> and the error
  message to \<open>Connection error. Retrying...\<close>; it does not close the \<open>EventSource\<close>, and it
  leaves the counter and the random number as they were. It is the handler of the \<open>error\<close>
  event of the transport and of a stream event named \<open>error\<close>. A source that was open when
  the handler ran is still open after the render that follows, the component is still
  mounted, and the source delivers the event that comes next: this holds in every state
  whose counter and random number can be rendered, so in every state that the component
  reaches from its mount. When the component is still mounted after that next event, its
  state is the one that the handlers of the event made of the state the error handler
  left.
\<close>

theorem error_handler_keeps_source_open:
  "connectionStatus (onerror c) = ''Error - Retrying'' \<and>
   error (onerror c) = Some ''Connection error. Retrying...'' \<and>
   es_closed (onerror c) = es_closed c \<and>
   counter_st (onerror c) = counter_st c \<and>
   randomNumber (onerror c) = randomNumber c \<and>
   onerror c =
     c\<lparr>error := Some ''Connection error. Retrying...'',
       connectionStatus := ''Error - Retrying'',
       console := console c @ [ConsoleError ''EventSource error:'']\<rparr> \<and>
   mounted (onerror c) = mounted c \<and>
   deliver c Error = onerror c \<and>
   deliver c (Named ''error'' data) = onerror c \<and>
   (\<not> es_closed c \<and> renderable (counter_st c) \<and> renderable (randomNumber c) \<longrightarrow>
      dispatch c Error = onerror c \<and>
      \<not> es_closed (dispatch c Error) \<and>
      dispatch (dispatch c Error) ev = rerender (onerror c) (deliver (onerror c) ev)) \<and>
   (\<not> es_closed c \<and> mounted (dispatch (dispatch c Error) ev) \<longrightarrow>
      dispatch (dispatch c Error) ev = deliver (onerror c) ev) \<and>
   (\<not> es_closed (foldl component_step mount evs) \<longrightarrow>
      component_step (foldl component_step mount evs) (Delivered Error) =
        onerror (foldl component_step mount evs) \<and>
      \<not> es_closed (component_step (foldl component_step mount evs) (Delivered Error)) \<and>
      mounted (component_step (foldl component_step mount evs) (Delivered Error)) \<and>
      component_step (component_step (foldl component_step mount evs) (Delivered Error))
          (Delivered ev) =
        rerender (onerror (foldl component_step mount evs))
          (deliver (onerror (foldl component_step mount evs)) ev))"
proof -
  have r: "\<not> es_closed x \<and> renderable (counter_st x) \<and> renderable (randomNumber x) \<longrightarrow>
      dispatch x Error = onerror x \<and>
      \<not> es_closed (dispatch x Error) \<and>
      dispatch (dispatch x Error) ev = rerender (onerror x) (deliver (onerror x) ev)" for x
  proof (intro impI)
    assume a: "\<not> es_closed x \<and> renderable (counter_st x) \<and> renderable (randomNumber x)"
    then have "rerender x (onerror x) = onerror x"
      by (intro rerender_renderable) (simp_all add: onerror_def)
    with a have d: "dispatch x Error = onerror x" by (simp add: dispatch_def)
    from a have o: "\<not> es_closed (onerror x)" by (simp add: onerror_def)
    from d o show "dispatch x Error = onerror x \<and>
        \<not> es_closed (dispatch x Error) \<and>
        dispatch (dispatch x Error) ev = rerender (onerror x) (deliver (onerror x) ev)"
      by (simp add: dispatch_def)
  qed
  let ?s = "foldl component_step mount evs"
  have s: "\<not> es_closed ?s \<longrightarrow>
      component_step ?s (Delivered Error) = onerror ?s \<and>
      \<not> es_closed (component_step ?s (Delivered Error)) \<and>
      mounted (component_step ?s (Delivered Error)) \<and>
      component_step (component_step ?s (Delivered Error)) (Delivered ev) =
        rerender (onerror ?s) (deliver (onerror ?s) ev)"
  proof (intro impI)
    assume a: "\<not> es_closed ?s"
    with steps_open [of evs] have m: "mounted ?s"
      and b: "\<not> es_closed ?s \<and> renderable (counter_st ?s) \<and> renderable (randomNumber ?s)"
      by simp_all
    from m have m': "mounted (onerror ?s)" by (simp add: onerror_def)
    from r [of ?s] b have d: "dispatch ?s Error = onerror ?s"
      and o: "\<not> es_closed (dispatch ?s Error)"
      and n: "dispatch (dispatch ?s Error) ev = rerender (onerror ?s) (deliver (onerror ?s) ev)"
      by blast+
    have 1: "component_step ?s (Delivered Error) = onerror ?s"
      using d by simp
    have 2: "\<not> es_closed (component_step ?s (Delivered Error))"
      using o by simp
    have 3: "mounted (component_step ?s (Delivered Error))"
      using m' by (simp only: 1)
    have 4: "component_step (component_step ?s (Delivered Error)) (Delivered ev) =
        rerender (onerror ?s) (deliver (onerror ?s) ev)"
      using n by simp
    from 1 2 3 4 show "component_step ?s (Delivered Error) = onerror ?s \<and>
        \<not> es_closed (component_step ?s (Delivered Error)) \<and>
        mounted (component_step ?s (Delivered Error)) \<and>
        component_step (component_step ?s (Delivered Error)) (Delivered ev) =
          rerender (onerror ?s) (deliver (onerror ?s) ev)"
      by blast
  qed
  have e: "connectionStatus (onerror c) = ''Error - Retrying'' \<and>
      error (onerror c) = Some ''Connection error. Retrying...'' \<and>
      es_closed (onerror c) = es_closed c \<and>
      counter_st (onerror c) = counter_st c \<and>
      randomNumber (onerror c) = randomNumber c \<and>
      onerror c =
        c\<lparr>error := Some ''Connection error. Retrying...'',
          connectionStatus := ''Error - Retrying'',
          console := console c @ [ConsoleError ''EventSource error:'']\<rparr> \<and>
      mounted (onerror c) = mounted c \<and>
      deliver c Error = onerror c \<and>
      deliver c (Named ''error'' data) = onerror c"
    by (simp add: onerror_def)
  have w: "\<not> es_closed c \<and> mounted (dispatch (dispatch c Error) ev) \<longrightarrow>
      dispatch (dispatch c Error) ev = deliver (onerror c) ev"
  proof (intro impI)
    assume a: "\<not> es_closed c \<and> mounted (dispatch (dispatch c Error) ev)"
    then have 1: "dispatch (dispatch c Error) ev =
        (if es_closed (dispatch c Error) then dispatch c Error else deliver (dispatch c Error) ev)"
      by (intro dispatch_mounted) simp
    with a have "mounted (dispatch c Error)"
      by (simp add: deliver_keeps split: if_splits)
    then have "dispatch c Error = (if es_closed c then c else deliver c Error)"
      by (rule dispatch_mounted)
    with a have 2: "dispatch c Error = onerror c" by simp
    from a have "\<not> es_closed (onerror c)" by (simp add: onerror_def)
    with 1 2 show "dispatch (dispatch c Error) ev = deliver (onerror c) ev" by simp
  qed
  from e r [of c] w s show ?thesis by blast
qed

theorem error_handler_keeps_source_open_witness:
  "\<not> es_closed mount \<and> renderable (counter_st mount) \<and> renderable (randomNumber mount) \<and>
   \<not> es_closed (foldl component_step mount [Delivered Open]) \<and>
   connectionStatus (dispatch mount Error) = ''Error - Retrying'' \<and>
   error (dispatch mount Error) = Some ''Connection error. Retrying...'' \<and>
   \<not> es_closed (dispatch mount Error) \<and>
   connectionStatus (dispatch (dispatch mount Error) Open) = ''Connected'' \<and>
   error (dispatch (dispatch mount Error) Open) = None \<and>
   mounted (dispatch (dispatch mount Error) Open) \<and>
   dispatch (dispatch mount Error) Open = deliver (onerror mount) Open \<and>
   mounted (component_step (foldl component_step mount [Delivered Open]) (Delivered Error)) \<and>
   connectionStatus (component_step (foldl component_step mount [Delivered Open])
     (Delivered Error)) = ''Error - Retrying''"
proof -
  let ?s = "foldl component_step mount [Delivered Open]"
  have h: "\<not> es_closed mount \<and> renderable (counter_st mount) \<and> renderable (randomNumber mount)"
    by (simp add: mount_def effect_def first_render_def)
  have k: "\<not> es_closed ?s"
    by (simp add: client_eval)
  note t = error_handler_keeps_source_open [of mount "[]" Open "[Delivered Open]"]
  from t h have d: "dispatch mount Error = onerror mount"
    and o: "\<not> es_closed (dispatch mount Error)"
    and n: "dispatch (dispatch mount Error) Open =
        rerender (onerror mount) (deliver (onerror mount) Open)"
    by blast+
  from t k have m: "mounted (component_step ?s (Delivered Error))"
    and e: "component_step ?s (Delivered Error) = onerror ?s"
    by blast+
  from t have 1: "connectionStatus (onerror mount) = ''Error - Retrying''"
    and 2: "error (onerror mount) = Some ''Connection error. Retrying...''"
    by blast+
  have g: "connectionStatus (rerender (onerror mount) (deliver (onerror mount) Open)) = ''Connected''"
    "error (rerender (onerror mount) (deliver (onerror mount) Open)) = None"
    by (simp_all add: client_eval)
  have 3: "connectionStatus (onerror ?s) = ''Error - Retrying''"
    by (simp add: onerror_def)
  have c5: "connectionStatus (dispatch mount Error) = ''Error - Retrying''"
    by (simp only: d 1)
  have c6: "error (dispatch mount Error) = Some ''Connection error. Retrying...''"
    by (simp only: d 2)
  have c8: "connectionStatus (dispatch (dispatch mount Error) Open) = ''Connected''"
    by (simp only: n g)
  have c9: "error (dispatch (dispatch mount Error) Open) = None"
    by (simp only: n g)
  have c11: "connectionStatus (component_step ?s (Delivered Error)) = ''Error - Retrying''"
    by (simp only: e 3)
  have v: "mounted (dispatch (dispatch mount Error) Open)"
    by (simp add: client_eval)
  from t h v have c10: "dispatch (dispatch mount Error) Open = deliver (onerror mount) Open"
    by blast
  from h k o m c5 c6 c8 c9 v c10 c11 show ?thesis by blast
qed

text \<open>
  C9. When the component is unmounted, the cleanup of its effect runs, and the cleanup
  closes the \<open>EventSource\<close>: it does so whatever the state of the component and of the
  source, and it does nothing else: it sets no state cell, prints nothing and throws
  nothing. After an unmount, at any moment of the life of the component, the source is
  closed and the component is unmounted, and whatever comes later changes nothing. The
  effect has no dependency, so no render runs the cleanup: a delivered event after which
  the component is still mounted leaves the source as it was.
\<close>

theorem unmount_closes_source:
  "(mounted c \<longrightarrow>
      component_step c Unmount = (cleanup c)\<lparr>mounted := False\<rparr> \<and>
      es_closed (component_step c Unmount)) \<and>
   cleanup c = c\<lparr>es_closed := True\<rparr> \<and>
   es_closed (cleanup c) \<and>
   es_closed (foldl component_step mount (evs @ [Unmount])) \<and>
   \<not> mounted (foldl component_step mount (evs @ [Unmount])) \<and>
   foldl component_step mount (evs @ Unmount # evs') =
     foldl component_step mount (evs @ [Unmount]) \<and>
   (mounted (foldl component_step mount evs) \<longrightarrow>
      foldl component_step mount (evs @ Unmount # evs') =
        (foldl component_step mount evs)\<lparr>es_closed := True, mounted := False\<rparr>) \<and>
   (mounted (component_step c (Delivered ev)) \<longrightarrow>
      es_closed (component_step c (Delivered ev)) = es_closed c)"
proof -
  let ?s = "foldl component_step mount evs"
  have a: "mounted c \<longrightarrow>
      component_step c Unmount = (cleanup c)\<lparr>mounted := False\<rparr> \<and>
      es_closed (component_step c Unmount)"
    by (simp add: unmount_def cleanup_def)
  have b: "cleanup c = c\<lparr>es_closed := True\<rparr>" "es_closed (cleanup c)"
    by (simp_all add: cleanup_def)
  from steps_open [of evs] have "\<not> es_closed ?s \<longrightarrow> mounted ?s" by simp
  then have u: "es_closed (unmount ?s)" "\<not> mounted (unmount ?s)"
    by (rule unmount_step)+
  then have d: "es_closed (foldl component_step mount (evs @ [Unmount]))"
    "\<not> mounted (foldl component_step mount (evs @ [Unmount]))"
    by simp_all
  have "foldl component_step mount (evs @ Unmount # evs') =
      foldl component_step (unmount ?s) evs'"
    by simp
  also have "\<dots> = unmount ?s"
    using u by (rule unmounted_steps)
  finally have e': "foldl component_step mount (evs @ Unmount # evs') = unmount ?s" .
  then have e: "foldl component_step mount (evs @ Unmount # evs') =
      foldl component_step mount (evs @ [Unmount])"
    by simp
  have g: "mounted ?s \<longrightarrow>
      foldl component_step mount (evs @ Unmount # evs') = ?s\<lparr>es_closed := True, mounted := False\<rparr>"
    by (simp only: e') (simp add: unmount_def cleanup_def)
  have "mounted (dispatch c ev) \<longrightarrow> es_closed (dispatch c ev) = es_closed c"
  proof
    assume "mounted (dispatch c ev)"
    then have "dispatch c ev = (if es_closed c then c else deliver c ev)"
      by (rule dispatch_mounted)
    then show "es_closed (dispatch c ev) = es_closed c"
      by (simp add: deliver_keeps)
  qed
  then have f: "mounted (component_step c (Delivered ev)) \<longrightarrow>
      es_closed (component_step c (Delivered ev)) = es_closed c"
    by simp
  from a b d e g f show ?thesis by blast
qed

theorem unmount_closes_source_witness:
  "mounted mount \<and> \<not> es_closed mount \<and>
   component_step mount Unmount = (cleanup mount)\<lparr>mounted := False\<rparr> \<and>
   mounted (foldl component_step mount
     [Delivered Open, Delivered (Named ''counter'' (utf16 ''{\"count\":1}''))]) \<and>
   foldl component_step mount
     ([Delivered Open, Delivered (Named ''counter'' (utf16 ''{\"count\":1}''))] @ Unmount #
      [Delivered (Named ''counter'' (utf16 ''{\"count\":2}''))]) =
     (foldl component_step mount
       [Delivered Open, Delivered (Named ''counter'' (utf16 ''{\"count\":1}''))])
     \<lparr>es_closed := True, mounted := False\<rparr> \<and>
   view (foldl component_step mount
     ([Delivered Open, Delivered (Named ''counter'' (utf16 ''{\"count\":1}''))] @ Unmount #
      [Delivered (Named ''counter'' (utf16 ''{\"count\":2}''))])) =
     (''Connected'', JNum 1, JNum 0, None) \<and>
   es_closed (foldl component_step mount
     ([Delivered Open, Delivered (Named ''counter'' (utf16 ''{\"count\":1}''))] @ [Unmount])) \<and>
   mounted (component_step mount (Delivered (Named ''counter'' (utf16 ''{\"count\":5}'')))) \<and>
   \<not> es_closed (component_step mount (Delivered (Named ''counter'' (utf16 ''{\"count\":5}''))))"
proof -
  let ?evs = "[Delivered Open, Delivered (Named ''counter'' (utf16 ''{\"count\":1}''))]"
  let ?evs' = "[Delivered (Named ''counter'' (utf16 ''{\"count\":2}''))]"
  let ?ev = "Named ''counter'' (utf16 ''{\"count\":5}'')"
  have h: "mounted mount" "\<not> es_closed mount"
    by (simp_all add: mount_def effect_def first_render_def)
  have k: "mounted (foldl component_step mount ?evs)"
    by (simp add: client_eval json_eval)
  have g: "view (foldl component_step mount (?evs @ [Unmount])) =
      (''Connected'', JNum 1, JNum 0, None)"
    by (simp add: client_eval json_eval)
  have m: "mounted (component_step mount (Delivered ?ev))"
    by (simp add: client_eval json_eval)
  note t = unmount_closes_source [of mount ?evs ?evs' ?ev]
  from t h(1) have 1: "component_step mount Unmount = (cleanup mount)\<lparr>mounted := False\<rparr>"
    by blast
  from t have 2: "es_closed (foldl component_step mount (?evs @ [Unmount]))"
    and 3: "foldl component_step mount (?evs @ Unmount # ?evs') =
        foldl component_step mount (?evs @ [Unmount])"
    by blast+
  from t k have 7: "foldl component_step mount (?evs @ Unmount # ?evs') =
      (foldl component_step mount ?evs)\<lparr>es_closed := True, mounted := False\<rparr>"
    by blast
  from t m have 4: "es_closed (component_step mount (Delivered ?ev)) = es_closed mount"
    by blast
  have 5: "view (foldl component_step mount (?evs @ Unmount # ?evs')) =
      (''Connected'', JNum 1, JNum 0, None)"
    by (simp only: 3 g)
  have 6: "\<not> es_closed (component_step mount (Delivered ?ev))"
    unfolding 4 by (rule h(2))
  from h 1 k 7 5 2 m 6 show ?thesis by blast
qed

text \<open>
  C10. A \<open>counter\<close> event changes at most the counter, and only when the payload has a
  \<open>count\<close>; a \<open>random\<close> event changes at most the random number, and only when the
  payload has a \<open>number\<close>; the \<open>connected\<close> listener changes nothing that the component
  renders. Whatever the name and the data of a \<open>connected\<close>, \<open>counter\<close> or \<open>random\<close>
  event, and also when its listener throws, the handling of the event leaves the
  connection status, the error message and the value of the other event as they were,
  and it neither closes the \<open>EventSource\<close> nor unmounts the component. When the
  component is still mounted after the render that follows, its state is the one the
  listener left. The component is unmounted by that render only when the listener has
  stored a value that cannot be rendered; this never happens on a \<open>connected\<close> event.
\<close>

theorem listeners_touch_own_state:
  "(counter_listener data c = Inr c' \<longrightarrow>
      (\<exists>d. JSON_parse data = Some d \<and>
         (get_prop d ''count'' = Inr None \<and> c' = c \<or>
          (\<exists>v. get_prop d ''count'' = Inr (Some v) \<and> c' = c\<lparr>counter_st := v\<rparr>)))) \<and>
   (random_listener data c = Inr c' \<longrightarrow>
      (\<exists>d. JSON_parse data = Some d \<and>
         (get_prop d ''number'' = Inr None \<and> c' = c \<or>
          (\<exists>v. get_prop d ''number'' = Inr (Some v) \<and> c' = c\<lparr>randomNumber := v\<rparr>)))) \<and>
   (connected_listener data c = Inr c' \<longrightarrow> view c' = view c \<and> es_closed c' = es_closed c) \<and>
   randomNumber (deliver c (Named ''counter'' data)) = randomNumber c \<and>
   counter_st (deliver c (Named ''random'' data)) = counter_st c \<and>
   view (deliver c (Named ''connected'' data)) = view c \<and>
   dispatch c (Named ''connected'' data) =
     (if es_closed c then c else deliver c (Named ''connected'' data)) \<and>
   (name = ''connected'' \<or> name = ''counter'' \<or> name = ''random'' \<longrightarrow>
      connectionStatus (deliver c (Named name data)) = connectionStatus c \<and>
      error (deliver c (Named name data)) = error c \<and>
      es_closed (deliver c (Named name data)) = es_closed c \<and>
      mounted (deliver c (Named name data)) = mounted c \<and>
      (mounted (dispatch c (Named name data)) \<longrightarrow>
         dispatch c (Named name data) =
           (if es_closed c then c else deliver c (Named name data))) \<and>
      (mounted c \<and> \<not> mounted (dispatch c (Named name data)) \<longrightarrow>
         \<not> es_closed c \<and> es_closed (dispatch c (Named name data)) \<and>
         view (deliver c (Named name data)) \<noteq> view c \<and>
         \<not> (renderable (counter_st (deliver c (Named name data))) \<and>
            renderable (randomNumber (deliver c (Named name data))))))"
proof -
  have a: "counter_listener data c = Inr c' \<longrightarrow>
      (\<exists>d. JSON_parse data = Some d \<and>
         (get_prop d ''count'' = Inr None \<and> c' = c \<or>
          (\<exists>v. get_prop d ''count'' = Inr (Some v) \<and> c' = c\<lparr>counter_st := v\<rparr>)))"
    by (auto simp: counter_listener_def split: option.splits sum.splits)
  have b: "random_listener data c = Inr c' \<longrightarrow>
      (\<exists>d. JSON_parse data = Some d \<and>
         (get_prop d ''number'' = Inr None \<and> c' = c \<or>
          (\<exists>v. get_prop d ''number'' = Inr (Some v) \<and> c' = c\<lparr>randomNumber := v\<rparr>)))"
    by (auto simp: random_listener_def split: option.splits sum.splits)
  have c: "connected_listener data c = Inr c' \<longrightarrow> view c' = view c \<and> es_closed c' = es_closed c"
    by (auto simp: connected_listener_def view_def split: option.splits sum.splits)
  have d: "randomNumber (deliver c (Named ''counter'' data)) = randomNumber c"
    "counter_st (deliver c (Named ''random'' data)) = counter_st c"
    by (simp_all add: named_deliver_cells del: deliver.simps)
  note e = connected_deliver [of c data] connected_dispatch [of c data]
  have f: "name = ''connected'' \<or> name = ''counter'' \<or> name = ''random'' \<longrightarrow>
      connectionStatus (deliver c (Named name data)) = connectionStatus c \<and>
      error (deliver c (Named name data)) = error c"
    by (simp add: named_deliver_cells del: deliver.simps)
  have k: "es_closed (deliver c (Named name data)) = es_closed c"
    "mounted (deliver c (Named name data)) = mounted c"
    by (rule deliver_keeps)+
  have g: "mounted (dispatch c (Named name data)) \<longrightarrow>
      dispatch c (Named name data) = (if es_closed c then c else deliver c (Named name data))"
    using dispatch_mounted [of c "Named name data"] by blast
  have h: "mounted c \<and> \<not> mounted (dispatch c (Named name data)) \<longrightarrow>
      \<not> es_closed c \<and> es_closed (dispatch c (Named name data)) \<and>
      view (deliver c (Named name data)) \<noteq> view c \<and>
      \<not> (renderable (counter_st (deliver c (Named name data))) \<and>
         renderable (randomNumber (deliver c (Named name data))))"
    using dispatch_unmounts(1-4) [of c "Named name data"] by blast
  from a b c d e f k g h show ?thesis by blast
qed

theorem listeners_touch_own_state_witness:
  "counter_listener (utf16 ''{\"count\":7}'') mount = Inr (mount\<lparr>counter_st := JNum 7\<rparr>) \<and>
   random_listener (utf16 ''{\"count\":7}'') mount = Inr mount \<and>
   connected_listener (utf16 ''{\"message\":\"hi\"}'') mount =
     Inr (mount\<lparr>console := [ConsoleLog (Some (JStr (utf16 ''hi'')))]\<rparr>) \<and>
   view (mount\<lparr>console := [ConsoleLog (Some (JStr (utf16 ''hi'')))]\<rparr>) = view mount \<and>
   get_prop (JObj [(utf16 ''count'', JNum 7)]) ''count'' = Inr (Some (JNum 7)) \<and>
   get_prop (JObj [(utf16 ''count'', JNum 7)]) ''number'' = Inr None \<and>
   mounted (dispatch mount (Named ''counter'' (utf16 ''{\"count\":7}''))) \<and>
   dispatch mount (Named ''counter'' (utf16 ''{\"count\":7}'')) = mount\<lparr>counter_st := JNum 7\<rparr> \<and>
   mounted mount \<and>
   \<not> mounted (dispatch mount (Named ''counter'' (utf16 ''{\"count\":{\"a\":1}}''))) \<and>
   es_closed (dispatch mount (Named ''counter'' (utf16 ''{\"count\":{\"a\":1}}''))) \<and>
   \<not> renderable (counter_st (deliver mount (Named ''counter'' (utf16 ''{\"count\":{\"a\":1}}''))))"
proof -
  let ?d7 = "utf16 ''{\"count\":7}''"
  let ?hi = "utf16 ''{\"message\":\"hi\"}''"
  let ?obj = "utf16 ''{\"count\":{\"a\":1}}''"
  let ?logged = "mount\<lparr>console := [ConsoleLog (Some (JStr (utf16 ''hi'')))]\<rparr>"
  have h1: "counter_listener ?d7 mount = Inr (mount\<lparr>counter_st := JNum 7\<rparr>)"
    by (simp add: client_eval json_eval)
  have h2: "random_listener ?d7 mount = Inr mount"
    by (simp add: client_eval json_eval)
  have h3: "connected_listener ?hi mount = Inr ?logged"
    by (simp add: client_eval json_eval)
  have q: "get_prop (JObj [(utf16 ''count'', JNum 7)]) ''count'' = Inr (Some (JNum 7))"
    "get_prop (JObj [(utf16 ''count'', JNum 7)]) ''number'' = Inr None"
    by (simp_all add: utf16_def)
  have m1: "mounted (dispatch mount (Named ''counter'' ?d7))"
    by (simp add: client_eval json_eval)
  have m2: "mounted mount" "\<not> es_closed mount"
    by (simp_all add: mount_def effect_def first_render_def)
  have m3: "\<not> mounted (dispatch mount (Named ''counter'' ?obj))"
    by (simp add: client_eval json_eval)
  have m5: "deliver mount (Named ''counter'' ?d7) = mount\<lparr>counter_st := JNum 7\<rparr>"
    using h1 by (simp add: report_def)
  have m6: "renderable (randomNumber (deliver mount (Named ''counter'' ?obj)))"
    by (simp add: client_eval json_eval)
  note t1 = listeners_touch_own_state [of ?d7 mount "mount\<lparr>counter_st := JNum 7\<rparr>" "''counter''"]
  note t2 = listeners_touch_own_state [of ?hi mount ?logged "''connected''"]
  note t3 = listeners_touch_own_state [of ?obj mount mount "''counter''"]
  from t2 h3 have 1: "view ?logged = view mount" by blast
  from t1 m1 have "dispatch mount (Named ''counter'' ?d7) =
      (if es_closed mount then mount else deliver mount (Named ''counter'' ?d7))"
    by blast
  with m2(2) m5 have 2: "dispatch mount (Named ''counter'' ?d7) = mount\<lparr>counter_st := JNum 7\<rparr>"
    by simp
  from t3 m2(1) m3 have 3: "es_closed (dispatch mount (Named ''counter'' ?obj))"
    and "\<not> (renderable (counter_st (deliver mount (Named ''counter'' ?obj))) \<and>
       renderable (randomNumber (deliver mount (Named ''counter'' ?obj))))"
    by blast+
  with m6 have 4: "\<not> renderable (counter_st (deliver mount (Named ''counter'' ?obj)))"
    by blast
  from h1 h2 h3 1 q m1 2 m2(1) m3 3 4 show ?thesis by blast
qed

end
